theory Spec2Isabelle
  imports Complex_Main "HOL-Library.Sublist" "HOL-Library.Log_Nat"
begin

section \<open>Strings, numbers and dictionaries of the source language\<close>

text \<open>
  A Python \<open>str\<close> is a sequence of Unicode code points, so a string is a list of natural
  numbers. ASCII literals of the source are written \<open>u ''...''\<close>. Amounts, Python floats in
  the source and decimals in the specification, are exact rationals here; the sums of the
  ledger are given a second time with the rounding addition of the machine as a parameter.
  Overflow of binary floating point is not part of the model.
\<close>

type_synonym ustring = "nat list"

definition u :: "string \<Rightarrow> ustring" where
  "u s = map of_char s"

text \<open>
  A Python \<open>dict\<close> keeps its keys in insertion order, and the order is observable (iteration,
  \<open>max\<close> over the items), so a dictionary is an association list with distinct keys:
  \<open>dict_get d k v\<close> is \<open>d.get(k, v)\<close>, \<open>dict_set d k v\<close> is \<open>d[k] = v\<close>, which keeps the place of
  a key already present and puts a new key last.
\<close>

fun dict_get :: "('k \<times> 'v) list \<Rightarrow> 'k \<Rightarrow> 'v \<Rightarrow> 'v" where
  "dict_get [] k d = d"
| "dict_get ((k', v) # ps) k d = (if k' = k then v else dict_get ps k d)"

fun dict_set :: "('k \<times> 'v) list \<Rightarrow> 'k \<Rightarrow> 'v \<Rightarrow> ('k \<times> 'v) list" where
  "dict_set [] k v = [(k, v)]"
| "dict_set ((k', v') # ps) k v =
     (if k' = k then (k, v) # ps else (k', v') # dict_set ps k v)"

section \<open>State management: \<open>Expense\<close> and \<open>SessionState\<close>\<close>

record Expense =
  e_id :: ustring
  e_amount :: rat
  e_currency :: ustring
  e_description :: ustring
  e_category :: ustring
  e_timestamp :: ustring
  e_raw_input :: ustring

record SessionState =
  session_id :: ustring
  expenses :: "Expense list"
  created_at :: ustring

text \<open>\<open>SessionState.__init__\<close>; \<open>now\<close> is the reading of \<open>datetime.now().isoformat()\<close>.\<close>

definition SessionState_init :: "ustring \<Rightarrow> ustring \<Rightarrow> SessionState" where
  "SessionState_init sid now = \<lparr>session_id = sid, expenses = [], created_at = now\<rparr>"

definition add_expense :: "Expense \<Rightarrow> SessionState \<Rightarrow> SessionState" where
  "add_expense expense s = s\<lparr>expenses := expenses s @ [expense]\<rparr>"

text \<open>\<open>sum(e.amount for e in self.expenses)\<close>: a left fold that starts at 0.\<close>

definition get_total :: "SessionState \<Rightarrow> rat" where
  "get_total s = foldl (\<lambda>acc e. acc + e_amount e) 0 (expenses s)"

definition get_category_totals :: "SessionState \<Rightarrow> (ustring \<times> rat) list" where
  "get_category_totals s =
     foldl (\<lambda>totals expense.
              dict_set totals (e_category expense)
                (dict_get totals (e_category expense) 0 + e_amount expense))
       [] (expenses s)"

definition get_expense_count :: "SessionState \<Rightarrow> nat" where
  "get_expense_count s = length (expenses s)"

text \<open>A sequence of appends to a ledger, in the order of the list.\<close>

definition appends :: "Expense list \<Rightarrow> SessionState \<Rightarrow> SessionState" where
  "appends es s = foldl (\<lambda>s e. add_expense e s) s es"

text \<open>The loop of \<open>get_category_totals\<close>, from any dictionary built so far.\<close>

definition totals_loop :: "(ustring \<times> rat) list \<Rightarrow> Expense list \<Rightarrow> (ustring \<times> rat) list" where
  "totals_loop t es =
     foldl (\<lambda>totals expense.
              dict_set totals (e_category expense)
                (dict_get totals (e_category expense) 0 + e_amount expense)) t es"

text \<open>
  The elements of a list in the order of their first appearance, after those already seen:
  the order in which the keys enter a dictionary that is filled from the list.
\<close>

definition first_seen :: "'a list \<Rightarrow> 'a list \<Rightarrow> 'a list" where
  "first_seen seen xs = foldl (\<lambda>ks x. if x \<in> set ks then ks else ks @ [x]) seen xs"

section \<open>The Python runtime: character classes, lower-casing, the clock\<close>

text \<open>
  The regular expressions of the source are \<open>str\<close> patterns, so \<open>\s\<close> and \<open>\d\<close> are Python's
  Unicode classes (the \<open>str.isspace\<close> characters; the decimal digits of category Nd, each
  with its value), and \<open>str.lower\<close> is Unicode lower-casing. These tables belong to the
  Python runtime, not to the repository, and so does the wall clock. The model takes them
  as a parameter: a character is a space, a digit with its decimal value, or neither;
  \<open>isoformat_now k\<close> and \<open>strftime_now k\<close> are the two renderings of the \<open>k\<close>-th reading of
  \<open>datetime.now()\<close> in the process.
\<close>

datatype cclass = Space | Digit nat | Other

record runtime =
  char_class :: "nat \<Rightarrow> cclass"
  str_lower :: "ustring \<Rightarrow> ustring"
  isoformat_now :: "nat \<Rightarrow> ustring"
  strftime_now :: "nat \<Rightarrow> ustring"

definition is_space :: "runtime \<Rightarrow> nat \<Rightarrow> bool" where
  "is_space R c = (char_class R c = Space)"

definition is_digit :: "runtime \<Rightarrow> nat \<Rightarrow> bool" where
  "is_digit R c = (case char_class R c of Digit v \<Rightarrow> True | _ \<Rightarrow> False)"

definition digit_value :: "runtime \<Rightarrow> nat \<Rightarrow> nat" where
  "digit_value R c = (case char_class R c of Digit v \<Rightarrow> v | _ \<Rightarrow> 0)"

text \<open>
  The tables restricted to ASCII, for evaluation: they agree with Python on every string
  whose characters are ASCII or have no case, no digit value and are not white space.
\<close>

definition ascii_class :: "nat \<Rightarrow> cclass" where
  "ascii_class c =
     (if (9 \<le> c \<and> c \<le> 13) \<or> (28 \<le> c \<and> c \<le> 32) then Space
      else if 48 \<le> c \<and> c \<le> 57 then Digit (c - 48)
      else Other)"

definition ascii_lower :: "ustring \<Rightarrow> ustring" where
  "ascii_lower s = map (\<lambda>c. if 65 \<le> c \<and> c \<le> 90 then c + 32 else c) s"

definition ascii_runtime :: runtime where
  "ascii_runtime =
     \<lparr>char_class = ascii_class, str_lower = ascii_lower,
      isoformat_now = (\<lambda>k. u ''2025-01-01T00:00:00''),
      strftime_now = (\<lambda>k. u ''20250101_000000'')\<rparr>"

section \<open>Custom tools: \<open>ExpenseParserTool\<close>\<close>

text \<open>
  The currency literals as the source file holds them. The primary symbol of
  \<open>finance_agent.py\<close> is the three code points U+00E2, U+201A, U+00B9 (the bytes
  \<open>c3 a2 e2 80 9a c2 b9\<close> of the file); the secondary symbol is the dollar sign.
\<close>

definition rupee :: ustring where
  "rupee = [226, 8218, 185]"

definition dollar :: ustring where
  "dollar = [36]"

definition dot :: nat where
  "dot = 46"

text \<open>
  \<open>(\d+(?:\.\d{2})?)\<close> matched at the start of \<open>s\<close>; the result is group 1. Both quantifiers
  are greedy and nothing follows them in the pattern, so the first success of the
  backtracking matcher is the longest run of digits, then the point and two digits when
  they are there.
\<close>

definition numeral_at :: "runtime \<Rightarrow> ustring \<Rightarrow> ustring option" where
  "numeral_at R s =
     (let ds = takeWhile (is_digit R) s; r = dropWhile (is_digit R) s
      in if ds = [] then None
         else (case r of
                 c # a # b # _ \<Rightarrow>
                   if c = dot \<and> is_digit R a \<and> is_digit R b then Some (ds @ [c, a, b])
                   else Some ds
               | _ \<Rightarrow> Some ds))"

text \<open>
  \<open>symb\s*(\d+(?:\.\d{2})?)\<close> matched at the start of \<open>s\<close>. No character is both a space and a
  digit, so giving back spaces never helps: the greedy \<open>\s*\<close> decides.
\<close>

definition symbol_amount_at :: "runtime \<Rightarrow> ustring \<Rightarrow> ustring \<Rightarrow> ustring option" where
  "symbol_amount_at R symb s =
     (if prefix symb s then numeral_at R (dropWhile (is_space R) (drop (length symb) s))
      else None)"

text \<open>\<open>re.search\<close>: the match at the leftmost position where the pattern matches.\<close>

fun re_search :: "(ustring \<Rightarrow> 'a option) \<Rightarrow> ustring \<Rightarrow> 'a option" where
  "re_search m [] = m []"
| "re_search m (c # cs) = (case m (c # cs) of Some g \<Rightarrow> Some g | None \<Rightarrow> re_search m cs)"

text \<open>
  \<open>float(g)\<close> for a string \<open>g\<close> of the shape the pattern captures: the digits before the
  point, and the digits after it as a decimal fraction. The value is the exact decimal; the
  rounding of \<open>float\<close> to the nearest double is left out.
\<close>

definition digits_value :: "runtime \<Rightarrow> ustring \<Rightarrow> nat" where
  "digits_value R ds = foldl (\<lambda>n c. 10 * n + digit_value R c) 0 ds"

definition float :: "runtime \<Rightarrow> ustring \<Rightarrow> rat" where
  "float R g =
     (let ip = takeWhile (is_digit R) g; fp = drop (Suc (length ip)) g
      in of_nat (digits_value R ip) + of_nat (digits_value R fp) / 10 ^ length fp)"

text \<open>
  The dictionary that flows through the pipeline (\<open>Dict[str, Any]\<close>): each of its six keys
  may be absent (\<open>None\<close>); a value that is present has the type the \<open>Expense\<close> dataclass
  declares for it.
\<close>

record candidate =
  c_amount :: "rat option"
  c_currency :: "ustring option"
  c_description :: "ustring option"
  c_raw_input :: "ustring option"
  c_parsed_at :: "ustring option"
  c_category :: "ustring option"

definition parse :: "runtime \<Rightarrow> ustring \<Rightarrow> ustring \<Rightarrow> candidate" where
  "parse R now text =
     (let rupee_match = re_search (symbol_amount_at R rupee) text;
          dollar_match = re_search (symbol_amount_at R dollar) text;
          (amount, currency) =
            (case rupee_match of
               Some g \<Rightarrow> (float R g, rupee)
             | None \<Rightarrow>
                 (case dollar_match of
                    Some g \<Rightarrow> (float R g, dollar)
                  | None \<Rightarrow>
                      (case re_search (numeral_at R) text of
                         Some g \<Rightarrow> (float R g, rupee)
                       | None \<Rightarrow> (0, rupee))))
      in \<lparr>c_amount = Some amount, c_currency = Some currency, c_description = Some text,
          c_raw_input = Some text, c_parsed_at = Some now, c_category = None\<rparr>)"

section \<open>Custom tools: \<open>CategoryClassifierTool\<close>\<close>

text \<open>
  The keyword database, a dictionary in the order of its declaration, one keyword list
  for each category.
\<close>

definition food_keywords :: "ustring list" where
  "food_keywords =
        [u ''grocery'', u ''groceries'', u ''restaurant'', u ''cafe'', u ''coffee'',
         u ''lunch'', u ''dinner'', u ''breakfast'', u ''food'', u ''meal'',
         u ''eating'', u ''dmart'', u ''reliance'', u ''bigbasket'', u ''swiggy'',
         u ''zomato'', u ''biryani'', u ''chai'', u ''tea'', u ''snack'']"

definition transportation_keywords :: "ustring list" where
  "transportation_keywords =
        [u ''uber'', u ''lyft'', u ''gas'', u ''fuel'', u ''parking'', u ''taxi'',
         u ''metro'', u ''bus'', u ''train'', u ''travel'', u ''trip'', u ''flight'',
         u ''car'', u ''vehicle'', u ''commute'', u ''auto'', u ''rickshaw'',
         u ''ola'', u ''rapido'', u ''petrol'', u ''diesel'']"

definition entertainment_keywords :: "ustring list" where
  "entertainment_keywords =
        [u ''movie'', u ''cinema'', u ''netflix'', u ''spotify'', u ''game'',
         u ''concert'', u ''theater'', u ''fun'', u ''entertainment'', u ''hotstar'',
         u ''prime'', u ''pvr'', u ''inox'', u ''gaming'']"

definition utilities_keywords :: "ustring list" where
  "utilities_keywords =
        [u ''electric'', u ''electricity'', u ''water'', u ''internet'', u ''phone'',
         u ''mobile'', u ''bill'', u ''utility'', u ''broadband'', u ''wifi'',
         u ''jio'', u ''airtel'', u ''vi'', u ''bsnl'', u ''gas'', u ''lpg'']"

definition shopping_keywords :: "ustring list" where
  "shopping_keywords =
        [u ''amazon'', u ''mall'', u ''store'', u ''shop'', u ''clothing'',
         u ''clothes'', u ''purchase'', u ''bought'', u ''flipkart'', u ''myntra'',
         u ''ajio'', u ''meesho'', u ''shopping'', u ''shirt'', u ''shoes'']"

definition healthcare_keywords :: "ustring list" where
  "healthcare_keywords =
        [u ''doctor'', u ''pharmacy'', u ''medicine'', u ''hospital'', u ''clinic'',
         u ''medical'', u ''health'', u ''apollo'', u ''fortis'', u ''prescription'']"

definition other_keywords :: "ustring list" where
  "other_keywords =
        []"

definition categories :: "(ustring \<times> ustring list) list" where
  "categories =
     [(u ''food'', food_keywords),
      (u ''transportation'', transportation_keywords),
      (u ''entertainment'', entertainment_keywords),
      (u ''utilities'', utilities_keywords),
      (u ''shopping'', shopping_keywords),
      (u ''healthcare'', healthcare_keywords),
      (u ''other'', other_keywords)]"

text \<open>\<open>keyword in s\<close> on strings: \<open>keyword\<close> occurs in \<open>s\<close> as a contiguous substring.\<close>

fun str_in :: "ustring \<Rightarrow> ustring \<Rightarrow> bool" where
  "str_in keyword [] = (keyword = [])"
| "str_in keyword (c # cs) = (prefix keyword (c # cs) \<or> str_in keyword cs)"

text \<open>The loop of \<open>classify\<close> over the items of the dictionary, and \<open>classify\<close> itself.\<close>

fun classify_loop :: "(ustring \<times> ustring list) list \<Rightarrow> ustring \<Rightarrow> ustring" where
  "classify_loop [] description_lower = u ''other''"
| "classify_loop ((category, keywords) # rest) description_lower =
     (if list_ex (\<lambda>keyword. str_in keyword description_lower) keywords then category
      else classify_loop rest description_lower)"

definition classify :: "runtime \<Rightarrow> ustring \<Rightarrow> ustring" where
  "classify R description = classify_loop categories (str_lower R description)"

section \<open>Observability: \<open>AgentLogger\<close>\<close>

text \<open>
  A log entry. The \<open>data\<close> payload of an entry is a reference to a dictionary of the
  caller; it is left out of the model, as is the copy of each entry printed to the
  console.
\<close>

record event =
  ev_timestamp :: ustring
  ev_agent :: ustring
  ev_type :: ustring
  ev_message :: ustring

text \<open>
  \<open>self.logs\<close> is a Python list, a mutable object that is reached through references. The
  store maps each reference to the list it denotes; \<open>lim\<close> is the next unused reference.
  An \<open>AgentLogger\<close> object holds the reference of its list.
\<close>

type_synonym ref = nat

record store =
  cells :: "ref \<Rightarrow> event list"
  lim :: ref

record AgentLogger =
  logs :: ref

definition empty_store :: store where
  "empty_store = \<lparr>cells = (\<lambda>r. []), lim = 0\<rparr>"

text \<open>\<open>xs.append(x)\<close> and \<open>xs.clear()\<close> on the list object behind a reference.\<close>

definition list_append :: "ref \<Rightarrow> event \<Rightarrow> store \<Rightarrow> store" where
  "list_append r x \<sigma> = \<sigma>\<lparr>cells := (cells \<sigma>)(r := cells \<sigma> r @ [x])\<rparr>"

definition list_clear :: "ref \<Rightarrow> store \<Rightarrow> store" where
  "list_clear r \<sigma> = \<sigma>\<lparr>cells := (cells \<sigma>)(r := [])\<rparr>"

text \<open>\<open>AgentLogger.__init__\<close>: a new empty list.\<close>

definition AgentLogger_init :: "store \<Rightarrow> AgentLogger \<times> store" where
  "AgentLogger_init \<sigma> =
     (\<lparr>logs = lim \<sigma>\<rparr>, \<sigma>\<lparr>cells := (cells \<sigma>)(lim \<sigma> := []), lim := Suc (lim \<sigma>)\<rparr>)"

text \<open>\<open>AgentLogger.log\<close>, with the reading of the clock as an argument.\<close>

definition logger_log ::
  "AgentLogger \<Rightarrow> ustring \<Rightarrow> ustring \<Rightarrow> ustring \<Rightarrow> ustring \<Rightarrow> store \<Rightarrow> store" where
  "logger_log L now agent_name event_type message \<sigma> =
     list_append (logs L)
       \<lparr>ev_timestamp = now, ev_agent = agent_name, ev_type = event_type,
        ev_message = message\<rparr> \<sigma>"

text \<open>\<open>AgentLogger.get_logs\<close>: \<open>return self.logs\<close>, the reference itself.\<close>

definition get_logs :: "AgentLogger \<Rightarrow> ref" where
  "get_logs L = logs L"

text \<open>The event sequence a logger stores, read from the store.\<close>

definition stored_events :: "AgentLogger \<Rightarrow> store \<Rightarrow> event list" where
  "stored_events L \<sigma> = cells \<sigma> (logs L)"

section \<open>The multi-agent system\<close>

text \<open>
  The objects the three agents and the orchestrator share: the store with the logger's
  list, the logger, the session state, and the number of clock readings made so far.
\<close>

record system =
  heap :: store
  logger :: AgentLogger
  session_state :: SessionState
  ticks :: nat

definition log_now :: "runtime \<Rightarrow> ustring \<Rightarrow> ustring \<Rightarrow> ustring \<Rightarrow> system \<Rightarrow> system" where
  "log_now R agent_name event_type message sys =
     sys\<lparr>heap := logger_log (logger sys) (isoformat_now R (ticks sys)) agent_name event_type
                   message (heap sys),
         ticks := Suc (ticks sys)\<rparr>"

text \<open>
  The exceptions of the pipeline: the only one its own code can raise is the \<open>KeyError\<close> of
  a dictionary access, which carries the missing key. \<open>str_error\<close> is \<open>str(e)\<close>, the key in
  single quotes.
\<close>

datatype error = KeyError ustring

fun str_error :: "error \<Rightarrow> ustring" where
  "str_error (KeyError k) = [39] @ k @ [39]"

text \<open>
  \<open>InputParserAgent.execute\<close>. Nothing in \<open>parse\<close> raises, so the \<open>except\<close> branch is never
  taken.
\<close>

definition InputParserAgent_execute :: "runtime \<Rightarrow> ustring \<Rightarrow> system \<Rightarrow> candidate \<times> system" where
  "InputParserAgent_execute R raw_input sys =
     (let sys1 = log_now R (u ''InputParserAgent'') (u ''start'')
                   (u ''Parsing input: '' @ raw_input) sys;
          parsed_data = parse R (isoformat_now R (ticks sys1)) raw_input;
          sys2 = sys1\<lparr>ticks := Suc (ticks sys1)\<rparr>;
          sys3 = log_now R (u ''InputParserAgent'') (u ''success'')
                   (u ''Successfully parsed expense'') sys2
      in (parsed_data, sys3))"

text \<open>
  \<open>CategoryClassifierAgent.execute\<close>. The description is read before the \<open>try\<close>, so a missing
  key raises before anything is logged; nothing in \<open>classify\<close> raises.
\<close>

definition CategoryClassifierAgent_execute ::
  "runtime \<Rightarrow> candidate \<Rightarrow> system \<Rightarrow> (error + candidate) \<times> system" where
  "CategoryClassifierAgent_execute R parsed_expense sys =
     (case c_description parsed_expense of
        None \<Rightarrow> (Inl (KeyError (u ''description'')), sys)
      | Some description \<Rightarrow>
          (let sys1 = log_now R (u ''CategoryClassifierAgent'') (u ''start'')
                        (u ''Classifying: '' @ description) sys;
               category = classify R description;
               sys2 = log_now R (u ''CategoryClassifierAgent'') (u ''success'')
                        (u ''Classified as: '' @ category) sys1
           in (Inr (parsed_expense\<lparr>c_category := Some category\<rparr>), sys2)))"

text \<open>\<open>str(n)\<close> for a natural number, as the f-string of the expense id renders it.\<close>

fun str_nat :: "nat \<Rightarrow> ustring" where
  "str_nat n = (if n < 10 then [48 + n] else str_nat (n div 10) @ [48 + n mod 10])"

text \<open>
  \<open>max(items, key=lambda x: x[1])\<close> on a list with first element \<open>m\<close>: the running maximum is
  replaced only by an item whose key is strictly greater.
\<close>

fun max_by_value :: "(ustring \<times> rat) \<Rightarrow> (ustring \<times> rat) list \<Rightarrow> (ustring \<times> rat)" where
  "max_by_value m [] = m"
| "max_by_value m (x # xs) = max_by_value (if snd m < snd x then x else m) xs"

record insights =
  total_spending :: rat
  expense_count :: nat
  category_breakdown :: "(ustring \<times> rat) list"
  top_category :: "ustring \<times> rat"

definition generate_insights :: "SessionState \<Rightarrow> insights" where
  "generate_insights s =
     (let total = get_total s;
          category_totals = get_category_totals s;
          expense_count = get_expense_count s;
          top_category = (case category_totals of
                            [] \<Rightarrow> (u ''none'', 0)
                          | x # xs \<Rightarrow> max_by_value x xs)
      in \<lparr>total_spending = total, expense_count = expense_count,
          category_breakdown = category_totals, top_category = top_category\<rparr>)"

text \<open>
  The keyword arguments of the \<open>Expense\<close> constructor in \<open>BudgetAnalyzerAgent.execute\<close>, read
  from the dictionary in the order they are written; the first absent key raises.
\<close>

definition build_expense :: "ustring \<Rightarrow> candidate \<Rightarrow> error + Expense" where
  "build_expense new_id c =
     (case c_amount c of None \<Rightarrow> Inl (KeyError (u ''amount'')) | Some amount \<Rightarrow>
      case c_currency c of None \<Rightarrow> Inl (KeyError (u ''currency'')) | Some currency \<Rightarrow>
      case c_description c of None \<Rightarrow> Inl (KeyError (u ''description'')) | Some description \<Rightarrow>
      case c_category c of None \<Rightarrow> Inl (KeyError (u ''category'')) | Some category \<Rightarrow>
      case c_parsed_at c of None \<Rightarrow> Inl (KeyError (u ''parsed_at'')) | Some parsed_at \<Rightarrow>
      case c_raw_input c of None \<Rightarrow> Inl (KeyError (u ''raw_input'')) | Some raw_input \<Rightarrow>
        Inr \<lparr>e_id = new_id, e_amount = amount, e_currency = currency,
             e_description = description, e_category = category, e_timestamp = parsed_at,
             e_raw_input = raw_input\<rparr>)"

record result =
  r_expense :: Expense
  r_insights :: insights

definition BudgetAnalyzerAgent_execute ::
  "runtime \<Rightarrow> candidate \<Rightarrow> system \<Rightarrow> (error + result) \<times> system" where
  "BudgetAnalyzerAgent_execute R classified_expense sys =
     (let sys1 = log_now R (u ''BudgetAnalyzerAgent'') (u ''start'')
                   (u ''Analyzing budget impact'') sys
      in case build_expense
                (u ''exp_'' @ str_nat (length (expenses (session_state sys1)) + 1))
                classified_expense of
           Inl e \<Rightarrow>
             (Inl e, log_now R (u ''BudgetAnalyzerAgent'') (u ''error'')
                       (u ''Analysis failed: '' @ str_error e) sys1)
         | Inr expense \<Rightarrow>
             (let sys2 = sys1\<lparr>session_state := add_expense expense (session_state sys1)\<rparr>;
                  insights = generate_insights (session_state sys2);
                  sys3 = log_now R (u ''BudgetAnalyzerAgent'') (u ''success'')
                           (u ''Analysis complete'') sys2
              in (Inr \<lparr>r_expense = expense, r_insights = insights\<rparr>, sys3)))"

text \<open>\<open>PersonalFinanceAgentSystem.__init__\<close> and \<open>process_expense\<close>.\<close>

definition PersonalFinanceAgentSystem_init :: "runtime \<Rightarrow> system" where
  "PersonalFinanceAgentSystem_init R =
     (let (l, \<sigma>) = AgentLogger_init empty_store
      in \<lparr>heap = \<sigma>, logger = l,
          session_state = SessionState_init (u ''session_'' @ strftime_now R 0)
                            (isoformat_now R 1),
          ticks = 2\<rparr>)"

definition pipeline_failed :: "runtime \<Rightarrow> error \<Rightarrow> system \<Rightarrow> system" where
  "pipeline_failed R e sys =
     log_now R (u ''System'') (u ''error'') (u ''Pipeline failed: '' @ str_error e) sys"

definition process_expense :: "runtime \<Rightarrow> ustring \<Rightarrow> system \<Rightarrow> (error + result) \<times> system" where
  "process_expense R raw_input sys =
     (let (parsed_data, sys1) = InputParserAgent_execute R raw_input sys
      in case CategoryClassifierAgent_execute R parsed_data sys1 of
           (Inl e, sys2) \<Rightarrow> (Inl e, pipeline_failed R e sys2)
         | (Inr classified_data, sys2) \<Rightarrow>
             (case BudgetAnalyzerAgent_execute R classified_data sys2 of
                (Inl e, sys3) \<Rightarrow> (Inl e, pipeline_failed R e sys3)
              | (Inr final_result, sys3) \<Rightarrow> (Inr final_result, sys3)))"

text \<open>
  A session: the calls of \<open>process_expense\<close> on the texts of a list, one after the other.
  A call that raises leaves the system as the exception left it, and the next call runs.
\<close>

definition process_all :: "runtime \<Rightarrow> ustring list \<Rightarrow> system \<Rightarrow> system" where
  "process_all R texts sys = foldl (\<lambda>sys text. snd (process_expense R text sys)) sys texts"

text \<open>The same for calls of the analyzer on classified candidates.\<close>

definition analyze_all :: "runtime \<Rightarrow> candidate list \<Rightarrow> system \<Rightarrow> system" where
  "analyze_all R cs sys = foldl (\<lambda>sys c. snd (BudgetAnalyzerAgent_execute R c sys)) sys cs"

section \<open>Example data\<close>

text \<open>A ledger of three records in two categories whose totals tie.\<close>

definition ex_ledger :: SessionState where
  "ex_ledger = appends
     [\<lparr>e_id = u ''exp_1'', e_amount = 100, e_currency = rupee, e_description = u ''tea'',
       e_category = u ''food'', e_timestamp = [], e_raw_input = u ''tea''\<rparr>,
      \<lparr>e_id = u ''exp_2'', e_amount = 150, e_currency = rupee, e_description = u ''bus'',
       e_category = u ''transportation'', e_timestamp = [], e_raw_input = u ''bus''\<rparr>,
      \<lparr>e_id = u ''exp_3'', e_amount = 50, e_currency = rupee, e_description = u ''chai'',
       e_category = u ''food'', e_timestamp = [], e_raw_input = u ''chai''\<rparr>]
     (SessionState_init [] [])"

section \<open>Notions of the specification\<close>

text \<open>
  A category matches a description when one of its keywords occurs as a substring of the
  lower-cased description.
\<close>

definition category_matches :: "runtime \<Rightarrow> ustring \<times> ustring list \<Rightarrow> ustring \<Rightarrow> bool" where
  "category_matches R entry description =
     (\<exists>keyword \<in> set (snd entry). \<exists>p q. str_lower R description = p @ keyword @ q)"

text \<open>The test of the loop of \<open>classify\<close> on one item of the dictionary.\<close>

definition loop_matches :: "ustring \<Rightarrow> ustring \<times> ustring list \<Rightarrow> bool" where
  "loop_matches dl entry = list_ex (\<lambda>keyword. str_in keyword dl) (snd entry)"

text \<open>
  A decimal numeral: one or more digits, optionally followed by a decimal point and
  exactly two digits.
\<close>

definition all_digits :: "runtime \<Rightarrow> ustring \<Rightarrow> bool" where
  "all_digits R ds = (ds \<noteq> [] \<and> list_all (is_digit R) ds)"

definition is_numeral :: "runtime \<Rightarrow> ustring \<Rightarrow> bool" where
  "is_numeral R n =
     (all_digits R n
      \<or> (case rev n of
            b # a # c # sd \<Rightarrow> c = dot \<and> is_digit R a \<and> is_digit R b \<and> all_digits R (rev sd)
          | _ \<Rightarrow> False))"

text \<open>A text contains a numeral when one of its substrings is a decimal numeral.\<close>

definition contains_numeral :: "runtime \<Rightarrow> ustring \<Rightarrow> bool" where
  "contains_numeral R text = (\<exists>p n q. text = p @ n @ q \<and> is_numeral R n)"

text \<open>
  An occurrence in \<open>text\<close> of a numeral \<open>n\<close> preceded by the symbol \<open>symb\<close>, with the white
  space \<open>w\<close> between them: \<open>p\<close> is the text before the symbol, \<open>q\<close> the text after the numeral.
\<close>

definition occurs_with_symbol ::
  "runtime \<Rightarrow> ustring \<Rightarrow> ustring \<Rightarrow> ustring \<Rightarrow> ustring \<Rightarrow> ustring \<Rightarrow> ustring \<Rightarrow> bool" where
  "occurs_with_symbol R symb text p w n q =
     (text = p @ symb @ w @ n @ q \<and> list_all (is_space R) w \<and> is_numeral R n)"

text \<open>
  The sequence number of an expense id \<open>exp_N\<close>: the decimal number after the four
  characters of the prefix.
\<close>

definition nat_of_str :: "ustring \<Rightarrow> nat" where
  "nat_of_str s = foldl (\<lambda>n c. 10 * n + (c - 48)) 0 s"

definition id_number :: "ustring \<Rightarrow> nat" where
  "id_number i = nat_of_str (drop 4 i)"

text \<open>
  The record a classified candidate gives, apart from its id, when all six fields are
  present.
\<close>

definition record_of :: "candidate \<Rightarrow> Expense option" where
  "record_of c = (case build_expense [] c of Inl e \<Rightarrow> None | Inr expense \<Rightarrow> Some expense)"

text \<open>The field names of a classified candidate that are absent from it.\<close>

definition missing_fields :: "candidate \<Rightarrow> ustring list" where
  "missing_fields c =
     (if c_amount c = None then [u ''amount''] else [])
     @ (if c_currency c = None then [u ''currency''] else [])
     @ (if c_description c = None then [u ''description''] else [])
     @ (if c_category c = None then [u ''category''] else [])
     @ (if c_parsed_at c = None then [u ''parsed_at''] else [])
     @ (if c_raw_input c = None then [u ''raw_input''] else [])"

text \<open>Candidates for evaluation: a complete one, and one without its category.\<close>

definition ex_candidate :: candidate where
  "ex_candidate =
     \<lparr>c_amount = Some 80, c_currency = Some rupee, c_description = Some (u ''Auto ride''),
      c_raw_input = Some (u ''Auto ride''), c_parsed_at = Some (u ''2025-01-01T00:00:00''),
      c_category = Some (u ''transportation'')\<rparr>"

definition ex_unclassified :: candidate where
  "ex_unclassified = ex_candidate\<lparr>c_category := None\<rparr>"

text \<open>A logger that has recorded one event.\<close>

definition ex_logger :: AgentLogger where
  "ex_logger = fst (AgentLogger_init empty_store)"

definition ex_store :: store where
  "ex_store =
     logger_log ex_logger (u ''2025-01-01T00:00:00'') (u ''System'') (u ''info'') (u ''started'')
       (snd (AgentLogger_init empty_store))"

text \<open>
  A session of three calls of the analyzer, the second on the candidate without category,
  and the result of a fourth call on the complete candidate.
\<close>

definition ex_session :: system where
  "ex_session =
     analyze_all ascii_runtime [ex_candidate, ex_unclassified, ex_candidate]
       (PersonalFinanceAgentSystem_init ascii_runtime)"

definition ex_expense :: "ustring \<Rightarrow> Expense" where
  "ex_expense i =
     \<lparr>e_id = i, e_amount = 80, e_currency = rupee, e_description = u ''Auto ride'',
      e_category = u ''transportation'', e_timestamp = u ''2025-01-01T00:00:00'',
      e_raw_input = u ''Auto ride''\<rparr>"

definition ex_result :: result where
  "ex_result =
     \<lparr>r_expense = ex_expense (u ''exp_3''),
      r_insights = generate_insights (add_expense (ex_expense (u ''exp_3''))
                     (session_state ex_session))\<rparr>"

section \<open>The ledger in floating-point arithmetic\<close>

text \<open>
  The amounts of the source are Python floats, and \<open>get_total\<close> and \<open>get_category_totals\<close> add
  them with the arithmetic of the machine, which rounds. Here the amount of a record is the
  value of its double (every finite double is a rational number), and the two operations
  of the runtime are parameters: \<open>fsum\<close> is the built-in \<open>sum\<close> on a sequence of floats, \<open>add\<close>
  is \<open>+\<close> on two floats. \<open>get_total\<close> and \<open>get_category_totals\<close> above are the instances with
  exact addition.
\<close>

definition get_total_fp :: "(rat list \<Rightarrow> rat) \<Rightarrow> SessionState \<Rightarrow> rat" where
  "get_total_fp fsum s = fsum (map e_amount (expenses s))"

definition get_category_totals_fp ::
  "(rat \<Rightarrow> rat \<Rightarrow> rat) \<Rightarrow> SessionState \<Rightarrow> (ustring \<times> rat) list" where
  "get_category_totals_fp add s =
     foldl (\<lambda>totals expense.
              dict_set totals (e_category expense)
                (add (dict_get totals (e_category expense) 0) (e_amount expense)))
       [] (expenses s)"

text \<open>The amounts of the records of one category, in the order of the records.\<close>

definition category_amounts :: "ustring \<Rightarrow> Expense list \<Rightarrow> rat list" where
  "category_amounts c es = map e_amount (filter (\<lambda>e. e_category e = c) es)"

text \<open>
  IEEE 754 binary64 addition for results in the normal range (no overflow, no subnormal
  result): the exact sum, rounded to the nearest number \<open>m * 2 ^ e\<close> with a significand \<open>m\<close>
  of 53 bits, a tie going to the even significand. \<open>binary_exponent x\<close> is the exponent \<open>e\<close>
  with \<open>2 ^ 52 \<le> x / 2 ^ e < 2 ^ 53\<close>, for \<open>x > 0\<close>.
\<close>

definition pow2 :: "int \<Rightarrow> rat" where
  "pow2 e = (if 0 \<le> e then 2 ^ nat e else 1 / 2 ^ nat (- e))"

definition round_half_even :: "rat \<Rightarrow> int" where
  "round_half_even m =
     (let f = \<lfloor>m\<rfloor>; r = m - of_int f
      in if r < 1 / 2 then f else if 1 / 2 < r then f + 1 else if even f then f else f + 1)"

definition binary_exponent :: "rat \<Rightarrow> int" where
  "binary_exponent x =
     (let k = bitlen (fst (quotient_of x)) - bitlen (snd (quotient_of x))
      in if pow2 k \<le> x then k - 52 else k - 53)"

definition double_round :: "rat \<Rightarrow> rat" where
  "double_round x =
     (if x = 0 then 0
      else sgn x * of_int (round_half_even (\<bar>x\<bar> / pow2 (binary_exponent \<bar>x\<bar>)))
             * pow2 (binary_exponent \<bar>x\<bar>))"

definition double_add :: "rat \<Rightarrow> rat \<Rightarrow> rat" where
  "double_add x y = double_round (x + y)"

text \<open>
  \<open>sum\<close> on floats, adding from left to right from 0. (CPython from version 3.12 on also
  carries a compensation term through the loop; for the ledger of the example below it
  returns the same values.)
\<close>

definition double_sum :: "rat list \<Rightarrow> rat" where
  "double_sum xs = foldl double_add 0 xs"

text \<open>
  The doubles that \<open>float('0.10')\<close> and \<open>float('1.10')\<close> give, and a ledger of three records
  with these amounts in two categories.
\<close>

definition d010 :: rat where
  "d010 = 3602879701896397 / 36028797018963968"

definition d110 :: rat where
  "d110 = 2476979795053773 / 2251799813685248"

definition ex_float_ledger :: SessionState where
  "ex_float_ledger = appends
     [\<lparr>e_id = u ''exp_1'', e_amount = d010, e_currency = rupee, e_description = u ''tea 0.10'',
       e_category = u ''food'', e_timestamp = [], e_raw_input = u ''tea 0.10''\<rparr>,
      \<lparr>e_id = u ''exp_2'', e_amount = d010, e_currency = rupee, e_description = u ''bus 0.10'',
       e_category = u ''transportation'', e_timestamp = [], e_raw_input = u ''bus 0.10''\<rparr>,
      \<lparr>e_id = u ''exp_3'', e_amount = d110, e_currency = rupee, e_description = u ''tea 1.10'',
       e_category = u ''food'', e_timestamp = [], e_raw_input = u ''tea 1.10''\<rparr>]
     (SessionState_init [] [])"

text \<open>The rupee sign, U+20B9, which the specification names as the primary symbol.\<close>

definition rupee_sign :: ustring where
  "rupee_sign = [8377]"

section \<open>Properties of the ledger\<close>

lemma expenses_appends: "expenses (appends es s) = expenses s @ es"
  unfolding appends_def by (induction es arbitrary: s) (simp_all add: add_expense_def)

lemma foldl_amounts:
  "foldl (\<lambda>acc e. acc + e_amount e) a es = a + sum_list (map e_amount es)"
  by (induction es arbitrary: a) (simp_all add: add.assoc)

lemma get_total_sum_list: "get_total s = sum_list (map e_amount (expenses s))"
  by (simp add: get_total_def foldl_amounts)

lemma keys_dict_set:
  "map fst (dict_set ps k v) =
     (if k \<in> fst ` set ps then map fst ps else map fst ps @ [k])"
proof (induction ps)
  case Nil
  show ?case by simp
next
  case (Cons p ps)
  obtain k' v' where p: "p = (k', v')" by (cases p)
  show ?case using Cons by (cases "k' = k") (auto simp: p)
qed

lemma sum_dict_set:
  fixes a :: rat
  shows "sum_list (map snd (dict_set ps k (dict_get ps k 0 + a))) = sum_list (map snd ps) + a"
  by (induction ps) auto

lemma totals_loop_sum:
  "sum_list (map snd (totals_loop t es)) = sum_list (map snd t) + sum_list (map e_amount es)"
  unfolding totals_loop_def
  by (induction es arbitrary: t) (simp_all add: sum_dict_set add.assoc)

lemma totals_loop_keys_set:
  "fst ` set (totals_loop t es) = fst ` set t \<union> e_category ` set es"
proof (induction es arbitrary: t)
  case Nil
  show ?case by (simp add: totals_loop_def)
next
  case (Cons e es)
  let ?t = "dict_set t (e_category e) (dict_get t (e_category e) 0 + e_amount e)"
  have step: "totals_loop t (e # es) = totals_loop ?t es"
    by (simp add: totals_loop_def)
  have keys: "fst ` set ?t = insert (e_category e) (fst ` set t)"
    using keys_dict_set [of t "e_category e" "dict_get t (e_category e) 0 + e_amount e"]
    by (metis (no_types, lifting) insert_absorb list.set_map set_append Un_insert_right
        sup_bot.right_neutral list.simps(15) empty_set)
  show ?case unfolding step Cons.IH keys by auto
qed

lemma totals_loop_distinct:
  "distinct (map fst t) \<Longrightarrow> distinct (map fst (totals_loop t es))"
  unfolding totals_loop_def
  by (induction es arbitrary: t) (simp_all add: keys_dict_set)

lemma get_category_totals_loop: "get_category_totals s = totals_loop [] (expenses s)"
  by (simp add: get_category_totals_def totals_loop_def)

text \<open>The keys of the category totals stand in the order in which the categories first appear.\<close>

lemma totals_loop_keys_order:
  "map fst (totals_loop t es) = first_seen (map fst t) (map e_category es)"
proof (induction es arbitrary: t)
  case Nil
  show ?case by (simp add: totals_loop_def first_seen_def)
next
  case (Cons e es)
  let ?t = "dict_set t (e_category e) (dict_get t (e_category e) 0 + e_amount e)"
  have step: "totals_loop t (e # es) = totals_loop ?t es" by (simp add: totals_loop_def)
  have k: "map fst ?t
     = (if e_category e \<in> set (map fst t) then map fst t else map fst t @ [e_category e])"
    by (simp add: keys_dict_set)
  show ?case unfolding step Cons.IH k by (simp add: first_seen_def)
qed

lemma category_totals_order:
  "map fst (get_category_totals s) = first_seen [] (map e_category (expenses s))"
  by (simp add: get_category_totals_loop totals_loop_keys_order)

section \<open>The insight snapshot\<close>

lemma max_by_value_mem: "max_by_value m xs \<in> set (m # xs)"
  by (induction xs arbitrary: m) auto

lemma max_by_value_ge_first: "snd m \<le> snd (max_by_value m xs)"
proof (induction xs arbitrary: m)
  case Nil
  show ?case by simp
next
  case (Cons x xs)
  show ?case using Cons [of "if snd m < snd x then x else m"] by (auto split: if_splits)
qed

lemma max_by_value_ge: "x \<in> set (m # xs) \<Longrightarrow> snd x \<le> snd (max_by_value m xs)"
proof (induction xs arbitrary: m)
  case Nil
  then show ?case by simp
next
  case (Cons y ys)
  let ?m = "if snd m < snd y then y else m"
  have a: "snd m \<le> snd (max_by_value ?m ys)" and b: "snd y \<le> snd (max_by_value ?m ys)"
    using max_by_value_ge_first [of ?m ys] by (auto split: if_splits)
  from Cons.prems have "x = m \<or> x = y \<or> x \<in> set ys" by auto
  then show ?case using a b Cons.IH [of ?m] by auto
qed

lemma max_by_value_first:
  "\<exists>pre post. m # xs = pre @ max_by_value m xs # post
      \<and> (\<forall>p \<in> set pre. snd p < snd (max_by_value m xs))"
proof (induction xs arbitrary: m)
  case Nil
  have "[m] = [] @ m # [] \<and> (\<forall>p \<in> set []. snd p < snd m)" by simp
  then show ?case unfolding max_by_value.simps by blast
next
  case (Cons x xs)
  show ?case
  proof (cases "snd m < snd x")
    case True
    then have r: "max_by_value m (x # xs) = max_by_value x xs" by simp
    obtain pre post where d: "x # xs = pre @ max_by_value x xs # post"
      and s: "\<forall>p \<in> set pre. snd p < snd (max_by_value x xs)"
      using Cons [of x] by blast
    have "snd m < snd (max_by_value x xs)"
      using True max_by_value_ge_first [of x xs] by simp
    with d s have "m # x # xs = (m # pre) @ max_by_value x xs # post
        \<and> (\<forall>p \<in> set (m # pre). snd p < snd (max_by_value x xs))" by simp
    then show ?thesis unfolding r by blast
  next
    case False
    then have r: "max_by_value m (x # xs) = max_by_value m xs" by simp
    obtain pre post where d: "m # xs = pre @ max_by_value m xs # post"
      and s: "\<forall>p \<in> set pre. snd p < snd (max_by_value m xs)"
      using Cons [of m] by blast
    show ?thesis
    proof (cases pre)
      case Nil
      have "m # xs = max_by_value m xs # post" unfolding Nil using d
        by (simp only: Nil append_Nil)
      then have mm: "max_by_value m xs = m" by (metis list.inject)
      have "m # x # xs = [] @ m # (x # xs) \<and> (\<forall>p \<in> set []. snd p < snd m)" by simp
      then show ?thesis unfolding r mm by blast
    next
      case (Cons a pre')
      have "m # xs = a # (pre' @ max_by_value m xs # post)" using d
        by (simp only: Cons append_Cons)
      then have am: "a = m" and xs: "xs = pre' @ max_by_value m xs # post"
        by (metis list.inject)+
      have "snd m < snd (max_by_value m xs)" using s Cons am by simp
      with False have "snd x < snd (max_by_value m xs)" by simp
      with s Cons am have "\<forall>p \<in> set (m # x # pre'). snd p < snd (max_by_value m xs)" by simp
      moreover have "m # x # xs = (m # x # pre') @ max_by_value m xs # post"
        using xs by simp
      ultimately show ?thesis unfolding r by blast
    qed
  qed
qed

text \<open>
  Claim C4. The top category of the insight snapshot is an item of the category totals
  whose amount is maximal, and among the items with that amount it is the first in the
  insertion order of the dictionary, which is the order in which the categories first
  appear among the records; when the category totals are empty it is the pair of the name
  \<open>none\<close> and the amount 0.
\<close>

theorem top_category_first_maximum:
  "category_breakdown (generate_insights s) = get_category_totals s
   \<and> map fst (get_category_totals s) = first_seen [] (map e_category (expenses s))
   \<and> (get_category_totals s = [] \<longrightarrow> top_category (generate_insights s) = (u ''none'', 0))
   \<and> (get_category_totals s \<noteq> [] \<longrightarrow>
        top_category (generate_insights s) \<in> set (get_category_totals s)
        \<and> (\<forall>kv \<in> set (get_category_totals s).
              snd kv \<le> snd (top_category (generate_insights s)))
        \<and> (\<exists>pre post.
              get_category_totals s = pre @ top_category (generate_insights s) # post
              \<and> (\<forall>kv \<in> set pre. snd kv < snd (top_category (generate_insights s)))))"
proof -
  have rest: "category_breakdown (generate_insights s) = get_category_totals s
   \<and> (get_category_totals s = [] \<longrightarrow> top_category (generate_insights s) = (u ''none'', 0))
   \<and> (get_category_totals s \<noteq> [] \<longrightarrow>
        top_category (generate_insights s) \<in> set (get_category_totals s)
        \<and> (\<forall>kv \<in> set (get_category_totals s).
              snd kv \<le> snd (top_category (generate_insights s)))
        \<and> (\<exists>pre post.
              get_category_totals s = pre @ top_category (generate_insights s) # post
              \<and> (\<forall>kv \<in> set pre. snd kv < snd (top_category (generate_insights s)))))"
  proof (cases "get_category_totals s")
    case Nil
    then show ?thesis by (simp add: generate_insights_def)
  next
    case (Cons x xs)
    then have t: "top_category (generate_insights s) = max_by_value x xs"
      and b: "category_breakdown (generate_insights s) = x # xs"
      by (simp_all add: generate_insights_def)
    show ?thesis
      unfolding t b Cons
      using max_by_value_mem [of x xs] max_by_value_ge [of _ x xs] max_by_value_first [of x xs]
      by blast
  qed
  with category_totals_order [of s] show ?thesis by blast
qed

lemma ex_totals: "get_category_totals ex_ledger = [(u ''food'', 150), (u ''transportation'', 150)]"
  by (simp add: ex_ledger_def appends_def add_expense_def SessionState_init_def get_category_totals_def u_def)

theorem top_category_first_maximum_witness:
  "get_category_totals ex_ledger \<noteq> []
   \<and> get_category_totals ex_ledger = [(u ''food'', 150), (u ''transportation'', 150)]
   \<and> top_category (generate_insights ex_ledger) = (u ''food'', 150)"
proof -
  have ne: "get_category_totals ex_ledger \<noteq> []" by (simp add: ex_totals)
  from top_category_first_maximum [of ex_ledger] ne
  obtain pre post where d: "get_category_totals ex_ledger = pre @ top_category (generate_insights ex_ledger) # post"
    and s: "\<forall>kv \<in> set pre. snd kv < snd (top_category (generate_insights ex_ledger))"
    and g: "\<forall>kv \<in> set (get_category_totals ex_ledger). snd kv \<le> snd (top_category (generate_insights ex_ledger))"
    by blast
  have "pre = []"
  proof (cases pre)
    case Nil
    then show ?thesis .
  next
    case (Cons a pre')
    with d have a: "a = (u ''food'', 150)" by (simp add: ex_totals)
    have "top_category (generate_insights ex_ledger) \<in> set (get_category_totals ex_ledger)"
      using d by (metis in_set_conv_decomp)
    then have "snd (top_category (generate_insights ex_ledger)) = 150"
      by (auto simp: ex_totals)
    with s Cons a show ?thesis by simp
  qed
  with d have "top_category (generate_insights ex_ledger) = (u ''food'', 150)"
    by (simp add: ex_totals)
  with ne show ?thesis by (simp add: ex_totals)
qed

section \<open>The classifier\<close>

lemmas keyword_defs = food_keywords_def transportation_keywords_def entertainment_keywords_def
  utilities_keywords_def shopping_keywords_def healthcare_keywords_def other_keywords_def

lemma str_in_iff: "str_in k s \<longleftrightarrow> (\<exists>p q. s = p @ k @ q)"
proof (induction s)
  case Nil
  show ?case by auto
next
  case (Cons c cs)
  have "(\<exists>p q. c # cs = p @ k @ q) \<longleftrightarrow> prefix k (c # cs) \<or> (\<exists>p q. cs = p @ k @ q)"
  proof
    assume "\<exists>p q. c # cs = p @ k @ q"
    then obtain p q where d: "c # cs = p @ k @ q" by blast
    show "prefix k (c # cs) \<or> (\<exists>p q. cs = p @ k @ q)"
    proof (cases p)
      case Nil
      with d show ?thesis by (simp add: prefix_def)
    next
      case (Cons a p')
      with d have "cs = p' @ k @ q" by simp
      then show ?thesis by blast
    qed
  next
    assume "prefix k (c # cs) \<or> (\<exists>p q. cs = p @ k @ q)"
    then show "\<exists>p q. c # cs = p @ k @ q"
    proof
      assume "prefix k (c # cs)"
      then obtain q where "c # cs = [] @ k @ q" by (auto simp: prefix_def)
      then show ?thesis by blast
    next
      assume "\<exists>p q. cs = p @ k @ q"
      then obtain p q where "cs = p @ k @ q" by blast
      then have "c # cs = (c # p) @ k @ q" by simp
      then show ?thesis by blast
    qed
  qed
  with Cons show ?case by simp
qed

lemma list_ex_str_in:
  "list_ex (\<lambda>keyword. str_in keyword (str_lower R d)) (snd entry) = category_matches R entry d"
  by (simp add: category_matches_def list_ex_iff str_in_iff)

lemma classify_loop_first:
  "i < length cats \<Longrightarrow> loop_matches dl (cats ! i) \<Longrightarrow> (\<forall>j<i. \<not> loop_matches dl (cats ! j))
     \<Longrightarrow> classify_loop cats dl = fst (cats ! i)"
proof (induction cats arbitrary: i)
  case Nil
  then show ?case by simp
next
  case (Cons entry rest)
  obtain c kws where e: "entry = (c, kws)" by (cases entry)
  show ?case
  proof (cases i)
    case 0
    with Cons.prems show ?thesis by (simp add: e loop_matches_def)
  next
    case (Suc i')
    from Cons.prems(3) Suc have n0: "\<not> loop_matches dl entry" by auto
    have "\<forall>j<i'. \<not> loop_matches dl (rest ! j)"
      using Cons.prems(3) Suc by auto
    with Cons.IH [of i'] Cons.prems Suc have "classify_loop rest dl = fst (rest ! i')"
      by simp
    with n0 Suc show ?thesis by (simp add: e loop_matches_def)
  qed
qed

lemma classify_loop_none:
  "(\<forall>i<length cats. \<not> loop_matches dl (cats ! i)) \<Longrightarrow> classify_loop cats dl = u ''other''"
proof (induction cats)
  case Nil
  then show ?case by simp
next
  case (Cons entry rest)
  obtain c kws where e: "entry = (c, kws)" by (cases entry)
  from Cons.prems have n0: "\<not> loop_matches dl entry" by auto
  have "\<forall>i<length rest. \<not> loop_matches dl (rest ! i)" using Cons.prems by auto
  with Cons.IH n0 show ?case by (simp add: e loop_matches_def)
qed

lemma classify_loop_range: "classify_loop cats dl \<in> insert (u ''other'') (fst ` set cats)"
proof (induction cats)
  case Nil
  show ?case by simp
next
  case (Cons entry rest)
  obtain c kws where e: "entry = (c, kws)" by (cases entry)
  show ?case
  proof (cases "list_ex (\<lambda>keyword. str_in keyword dl) kws")
    case True
    then show ?thesis by (simp add: e)
  next
    case False
    then have "classify_loop (entry # rest) dl = classify_loop rest dl" by (simp add: e)
    with Cons show ?thesis by auto
  qed
qed

lemma loop_matches_lower: "loop_matches (str_lower R d) entry = category_matches R entry d"
  by (simp add: loop_matches_def list_ex_str_in)

text \<open>
  Claim C2. \<open>classify\<close> is a total function of the description (and of the lower-casing
  of the runtime), its value is one of the seven labels, the categories are tried in the
  order of their declaration, the first one that has a keyword occurring in the lower-cased
  description is returned, and \<open>other\<close> is returned when none has.
\<close>

theorem classify_first_match:
  "classify R d \<in> {u ''food'', u ''transportation'', u ''entertainment'', u ''utilities'',
                    u ''shopping'', u ''healthcare'', u ''other''}
   \<and> map fst categories = [u ''food'', u ''transportation'', u ''entertainment'',
                            u ''utilities'', u ''shopping'', u ''healthcare'', u ''other'']
   \<and> (\<forall>i<length categories.
         category_matches R (categories ! i) d
         \<and> (\<forall>j<i. \<not> category_matches R (categories ! j) d)
         \<longrightarrow> classify R d = fst (categories ! i))
   \<and> ((\<forall>i<length categories. \<not> category_matches R (categories ! i) d)
         \<longrightarrow> classify R d = u ''other'')"
proof -
  have r: "classify R d \<in> insert (u ''other'') (fst ` set categories)"
    unfolding classify_def by (rule classify_loop_range)
  have k: "map fst categories = [u ''food'', u ''transportation'', u ''entertainment'',
                            u ''utilities'', u ''shopping'', u ''healthcare'', u ''other'']"
    by (simp add: categories_def)
  have "fst ` set categories = set (map fst categories)" by simp
  with r have 1: "classify R d \<in> {u ''food'', u ''transportation'', u ''entertainment'',
       u ''utilities'', u ''shopping'', u ''healthcare'', u ''other''}"
    unfolding k by auto
  have 3: "\<forall>i<length categories.
         category_matches R (categories ! i) d
         \<and> (\<forall>j<i. \<not> category_matches R (categories ! j) d)
         \<longrightarrow> classify R d = fst (categories ! i)"
    unfolding classify_def
    using classify_loop_first [of _ categories "str_lower R d"]
    by (simp add: loop_matches_lower)
  have 4: "(\<forall>i<length categories. \<not> category_matches R (categories ! i) d)
         \<longrightarrow> classify R d = u ''other''"
    unfolding classify_def
    using classify_loop_none [of categories "str_lower R d"]
    by (simp add: loop_matches_lower)
  from 1 k 3 4 show ?thesis by blast
qed


lemmas ascii_eval = u_def ascii_runtime_def ascii_lower_def ascii_class_def

theorem classify_first_match_witness:
  "category_matches ascii_runtime (categories ! 1) (u ''Bus pass and phone bill'')
   \<and> category_matches ascii_runtime (categories ! 3) (u ''Bus pass and phone bill'')
   \<and> \<not> category_matches ascii_runtime (categories ! 0) (u ''Bus pass and phone bill'')
   \<and> classify ascii_runtime (u ''Bus pass and phone bill'') = u ''transportation''
   \<and> list_all (\<lambda>entry. \<not> category_matches ascii_runtime entry (u ''xyz unspecified item''))
         categories
   \<and> classify ascii_runtime (u ''xyz unspecified item'') = u ''other''"
proof -
  let ?d = "u ''Bus pass and phone bill''" and ?e = "u ''xyz unspecified item''"
  have c1: "categories ! 1 = (u ''transportation'', transportation_keywords)"
    and c3: "categories ! 3 = (u ''utilities'', utilities_keywords)"
    and c0: "categories ! 0 = (u ''food'', food_keywords)"
    by (simp_all add: categories_def)
  have m1: "category_matches ascii_runtime (categories ! 1) ?d"
    unfolding c1 loop_matches_lower [symmetric]
    by (simp add: loop_matches_def transportation_keywords_def ascii_eval)
  have m3: "category_matches ascii_runtime (categories ! 3) ?d"
    unfolding c3 loop_matches_lower [symmetric]
    by (simp add: loop_matches_def utilities_keywords_def ascii_eval)
  have m0: "\<not> category_matches ascii_runtime (categories ! 0) ?d"
    unfolding c0 loop_matches_lower [symmetric]
    by (simp add: loop_matches_def food_keywords_def ascii_eval)
  then have b1: "\<forall>j<1. \<not> category_matches ascii_runtime (categories ! j) ?d" by simp
  have "1 < length categories" by (simp add: categories_def)
  with m1 b1 classify_first_match [of ascii_runtime ?d]
  have "classify ascii_runtime ?d = fst (categories ! 1)" by blast
  then have r1: "classify ascii_runtime ?d = u ''transportation''" unfolding c1 by simp
  have "\<forall>entry \<in> set categories. \<not> loop_matches (str_lower ascii_runtime ?e) entry"
    by (simp add: categories_def loop_matches_def keyword_defs ascii_eval)
  then have a: "\<forall>entry \<in> set categories. \<not> category_matches ascii_runtime entry ?e"
    by (simp add: loop_matches_lower)
  then have n: "\<forall>i<length categories. \<not> category_matches ascii_runtime (categories ! i) ?e"
    by simp
  with classify_first_match [of ascii_runtime ?e]
  have r2: "classify ascii_runtime ?e = u ''other''" by blast
  from a have l: "list_all (\<lambda>entry. \<not> category_matches ascii_runtime entry ?e) categories"
    by (simp add: list_all_iff)
  from m1 m3 m0 r1 l r2 show ?thesis by blast
qed


lemma classify_food_or_transportation:
  "classify R d =
     (if category_matches R (u ''food'', food_keywords) d then u ''food''
      else if category_matches R (u ''transportation'', transportation_keywords) d
           then u ''transportation''
      else classify_loop (drop 2 categories) (str_lower R d))"
  unfolding loop_matches_lower [symmetric]
  by (simp add: classify_def categories_def loop_matches_def)

text \<open>
  Claim C9, as stated, fails: a description that contains \<open>gas\<close> and a keyword of the
  category \<open>food\<close>, which is declared before \<open>transportation\<close>, is classified as \<open>food\<close>.
\<close>

theorem gas_counterexample:
  "str_lower ascii_runtime (u ''Coffee at the gas station'')
     = u ''coffee at the '' @ u ''gas'' @ u '' station''
   \<and> classify ascii_runtime (u ''Coffee at the gas station'') = u ''food''
   \<and> u ''food'' \<noteq> u ''transportation''"
proof -
  have "category_matches ascii_runtime (u ''food'', food_keywords) (u ''Coffee at the gas station'')"
    unfolding loop_matches_lower [symmetric]
    by (simp add: loop_matches_def food_keywords_def ascii_eval)
  then have "classify ascii_runtime (u ''Coffee at the gas station'') = u ''food''"
    by (simp add: classify_food_or_transportation)
  then show ?thesis by (simp add: ascii_eval)
qed

text \<open>
  Claim C9, amended. The keyword \<open>gas\<close> is in the keyword lists of both \<open>transportation\<close>
  and \<open>utilities\<close>. A description whose lower-casing contains \<open>gas\<close> is classified as
  \<open>food\<close> when a keyword of \<open>food\<close> occurs in it as well and as \<open>transportation\<close> otherwise;
  it is never classified as \<open>utilities\<close>.
\<close>

theorem gas_never_utilities:
  assumes "\<exists>p q. str_lower R d = p @ u ''gas'' @ q"
  shows "u ''gas'' \<in> set transportation_keywords \<and> u ''gas'' \<in> set utilities_keywords
    \<and> classify R d =
        (if category_matches R (u ''food'', food_keywords) d then u ''food''
         else u ''transportation'')
    \<and> classify R d \<noteq> u ''utilities''"
proof -
  have t: "u ''gas'' \<in> set transportation_keywords"
    by (simp add: transportation_keywords_def)
  have ut: "u ''gas'' \<in> set utilities_keywords"
    by (simp add: utilities_keywords_def)
  from assms t have "category_matches R (u ''transportation'', transportation_keywords) d"
    unfolding category_matches_def by auto
  then have c: "classify R d =
        (if category_matches R (u ''food'', food_keywords) d then u ''food''
         else u ''transportation'')"
    by (simp add: classify_food_or_transportation)
  have "u ''food'' \<noteq> u ''utilities''" and "u ''transportation'' \<noteq> u ''utilities''"
    by (simp_all add: u_def)
  with c have "classify R d \<noteq> u ''utilities''" by (simp split: if_splits)
  with t ut c show ?thesis by blast
qed

theorem gas_never_utilities_witness:
  "(\<exists>p q. str_lower ascii_runtime (u ''LPG gas cylinder bill'') = p @ u ''gas'' @ q)
   \<and> category_matches ascii_runtime (u ''utilities'', utilities_keywords) (u ''LPG gas cylinder bill'')
   \<and> classify ascii_runtime (u ''LPG gas cylinder bill'') = u ''transportation''"
proof -
  let ?d = "u ''LPG gas cylinder bill''"
  have "str_in (u ''gas'') (str_lower ascii_runtime ?d)" by (simp add: ascii_eval)
  then have h: "\<exists>p q. str_lower ascii_runtime ?d = p @ u ''gas'' @ q"
    by (simp only: str_in_iff)
  have m3: "category_matches ascii_runtime (u ''utilities'', utilities_keywords) ?d"
    unfolding loop_matches_lower [symmetric]
    by (simp add: loop_matches_def utilities_keywords_def ascii_eval)
  have m0: "\<not> category_matches ascii_runtime (u ''food'', food_keywords) ?d"
    unfolding loop_matches_lower [symmetric]
    by (simp add: loop_matches_def food_keywords_def ascii_eval)
  from gas_never_utilities [OF h] m0
  have "classify ascii_runtime ?d = u ''transportation''" by simp
  with h m3 show ?thesis by blast
qed

section \<open>The parser\<close>

lemma is_numeral_iff:
  "is_numeral R n \<longleftrightarrow>
     all_digits R n
     \<or> (\<exists>ds a b. all_digits R ds \<and> is_digit R a \<and> is_digit R b \<and> n = ds @ [dot, a, b])"
proof -
  have "(case rev n of
            b # a # c # sd \<Rightarrow> c = dot \<and> is_digit R a \<and> is_digit R b \<and> all_digits R (rev sd)
          | _ \<Rightarrow> False)
        \<longleftrightarrow> (\<exists>ds a b. all_digits R ds \<and> is_digit R a \<and> is_digit R b \<and> n = ds @ [dot, a, b])"
    (is "?l \<longleftrightarrow> ?r")
  proof
    assume ?l
    then obtain b a sd where r: "rev n = b # a # dot # sd"
      and d: "is_digit R a" "is_digit R b" "all_digits R (rev sd)"
      by (auto split: list.splits)
    from r have "rev (rev n) = rev (b # a # dot # sd)" by simp
    then have "n = rev sd @ [dot, a, b]" by simp
    with d show ?r by blast
  next
    assume ?r
    then obtain ds a b where d: "all_digits R ds" "is_digit R a" "is_digit R b"
      and n: "n = ds @ [dot, a, b]" by blast
    from n have "rev n = b # a # dot # rev ds" by simp
    with d show ?l by simp
  qed
  then show ?thesis unfolding is_numeral_def by simp
qed

lemma all_digits_hd: "all_digits R ds \<Longrightarrow> ds \<noteq> [] \<and> is_digit R (hd ds)"
  by (cases ds) (simp_all add: all_digits_def)

lemma is_numeral_hd: "is_numeral R n \<Longrightarrow> n \<noteq> [] \<and> is_digit R (hd n)"
  unfolding is_numeral_iff using all_digits_hd [of R] by (auto simp: hd_append)

lemma not_space_digit: "is_digit R c \<Longrightarrow> \<not> is_space R c"
  by (auto simp: is_digit_def is_space_def split: cclass.splits)

lemma contains_numeral_iff: "contains_numeral R text \<longleftrightarrow> (\<exists>c \<in> set text. is_digit R c)"
proof
  assume "contains_numeral R text"
  then obtain p n q where t: "text = p @ n @ q" and n: "is_numeral R n"
    unfolding contains_numeral_def by blast
  from is_numeral_hd [OF n] have "hd n \<in> set n" and "is_digit R (hd n)" by simp_all
  with t show "\<exists>c \<in> set text. is_digit R c" by auto
next
  assume "\<exists>c \<in> set text. is_digit R c"
  then obtain c where c: "c \<in> set text" "is_digit R c" by blast
  then obtain p q where "text = p @ [c] @ q" by (auto simp: in_set_conv_decomp)
  moreover have "is_numeral R [c]" using c by (simp add: is_numeral_def all_digits_def)
  ultimately show "contains_numeral R text" unfolding contains_numeral_def by blast
qed

subsection \<open>The search\<close>

lemma re_search_None_iff: "re_search m s = None \<longleftrightarrow> (\<forall>p r. s = p @ r \<longrightarrow> m r = None)"
proof (induction s)
  case Nil
  show ?case by simp
next
  case (Cons c cs)
  show ?case
  proof (cases "m (c # cs)")
    case (Some g)
    then have "re_search m (c # cs) \<noteq> None" by simp
    moreover have "\<not> (\<forall>p r. c # cs = p @ r \<longrightarrow> m r = None)" using Some by force
    ultimately show ?thesis by blast
  next
    case None
    then have "re_search m (c # cs) = re_search m cs" by simp
    moreover have "(\<forall>p r. c # cs = p @ r \<longrightarrow> m r = None) \<longleftrightarrow> (\<forall>p r. cs = p @ r \<longrightarrow> m r = None)"
    proof
      assume a: "\<forall>p r. c # cs = p @ r \<longrightarrow> m r = None"
      show "\<forall>p r. cs = p @ r \<longrightarrow> m r = None"
      proof (intro allI impI)
        fix p r assume "cs = p @ r"
        then have "c # cs = (c # p) @ r" by simp
        with a show "m r = None" by blast
      qed
    next
      assume a: "\<forall>p r. cs = p @ r \<longrightarrow> m r = None"
      show "\<forall>p r. c # cs = p @ r \<longrightarrow> m r = None"
      proof (intro allI impI)
        fix p r assume d: "c # cs = p @ r"
        show "m r = None"
        proof (cases p)
          case Nil
          with d None show ?thesis by simp
        next
          case (Cons x p')
          with d have "cs = p' @ r" by simp
          with a show ?thesis by blast
        qed
      qed
    qed
    ultimately show ?thesis using Cons.IH by simp
  qed
qed

lemma re_search_Some:
  "re_search m s = Some g \<Longrightarrow>
     \<exists>p r. s = p @ r \<and> m r = Some g
        \<and> (\<forall>p2 r2. s = p2 @ r2 \<and> length p2 < length p \<longrightarrow> m r2 = None)"
proof (induction s)
  case Nil
  then have "[] = [] @ [] \<and> m [] = Some g" by simp
  then show ?case by (metis length_0_conv less_nat_zero_code)
next
  case (Cons c cs)
  show ?case
  proof (cases "m (c # cs)")
    case (Some g')
    with Cons.prems have "m (c # cs) = Some g" by simp
    then have "c # cs = [] @ (c # cs) \<and> m (c # cs) = Some g
        \<and> (\<forall>p2 r2. c # cs = p2 @ r2 \<and> length p2 < length ([]::ustring) \<longrightarrow> m r2 = None)"
      by simp
    then show ?thesis by blast
  next
    case None
    with Cons.prems have "re_search m cs = Some g" by simp
    from Cons.IH [OF this] obtain p r where d: "cs = p @ r" and g: "m r = Some g"
      and e: "\<forall>p2 r2. cs = p2 @ r2 \<and> length p2 < length p \<longrightarrow> m r2 = None" by blast
    have "\<forall>p2 r2. c # cs = p2 @ r2 \<and> length p2 < length (c # p) \<longrightarrow> m r2 = None"
    proof (intro allI impI)
      fix p2 r2 assume a: "c # cs = p2 @ r2 \<and> length p2 < length (c # p)"
      show "m r2 = None"
      proof (cases p2)
        case Nil
        with a None show ?thesis by simp
      next
        case (Cons x p2')
        with a have "cs = p2' @ r2" and "length p2' < length p" by simp_all
        with e show ?thesis by blast
      qed
    qed
    moreover have "c # cs = (c # p) @ r" using d by simp
    ultimately show ?thesis using g by blast
  qed
qed

subsection \<open>The numeral at a position\<close>

lemma numeral_at_None_iff: "numeral_at R s = None \<longleftrightarrow> takeWhile (is_digit R) s = []"
  by (auto simp: numeral_at_def Let_def split: list.splits)

lemma numeral_at_no_digit: "\<forall>c \<in> set s. \<not> is_digit R c \<Longrightarrow> numeral_at R s = None"
  unfolding numeral_at_None_iff by (cases s) simp_all

lemma symbol_amount_at_no_digit:
  assumes "\<forall>c \<in> set s. \<not> is_digit R c"
  shows "symbol_amount_at R symb s = None"
proof -
  have "set (dropWhile (is_space R) (drop (length symb) s)) \<subseteq> set s"
    using set_dropWhileD set_drop_subset by fastforce
  with assms have "\<forall>c \<in> set (dropWhile (is_space R) (drop (length symb) s)). \<not> is_digit R c"
    by blast
  then show ?thesis by (simp add: symbol_amount_at_def numeral_at_no_digit)
qed

lemma re_search_no_digit:
  assumes "\<forall>c \<in> set s. \<not> is_digit R c" and "\<And>r. \<forall>c \<in> set r. \<not> is_digit R c \<Longrightarrow> m r = None"
  shows "re_search m s = None"
proof -
  have "\<forall>p r. s = p @ r \<longrightarrow> m r = None"
  proof (intro allI impI)
    fix p r assume "s = p @ r"
    with assms(1) have "\<forall>c \<in> set r. \<not> is_digit R c" by simp
    then show "m r = None" by (rule assms(2))
  qed
  then show ?thesis by (simp add: re_search_None_iff)
qed

lemma parse_fields:
  "c_description (parse R now text) = Some text \<and> c_raw_input (parse R now text) = Some text
   \<and> c_parsed_at (parse R now text) = Some now \<and> c_category (parse R now text) = None"
  by (simp add: parse_def Let_def split: prod.splits)

text \<open>
  Claim C7. For a text that contains no decimal numeral, \<open>parse\<close> returns the amount 0 and
  the default currency, which is the primary symbol; for every text the description and
  the raw input of the result are the text itself, unchanged.
\<close>

theorem parse_no_numeral:
  "(\<not> contains_numeral R text \<longrightarrow>
      c_amount (parse R now text) = Some 0 \<and> c_currency (parse R now text) = Some rupee)
   \<and> c_description (parse R now text) = Some text
   \<and> c_raw_input (parse R now text) = Some text"
proof -
  have "c_amount (parse R now text) = Some 0 \<and> c_currency (parse R now text) = Some rupee"
    if "\<not> contains_numeral R text"
  proof -
    from that have nd: "\<forall>c \<in> set text. \<not> is_digit R c" by (simp add: contains_numeral_iff)
    have 1: "re_search (symbol_amount_at R rupee) text = None"
      and 2: "re_search (symbol_amount_at R dollar) text = None"
      and 3: "re_search (numeral_at R) text = None"
      using nd by (simp_all add: re_search_no_digit symbol_amount_at_no_digit numeral_at_no_digit)
    show ?thesis by (simp add: parse_def 1 2 3)
  qed
  with parse_fields [of R now "text"] show ?thesis by blast
qed

lemmas parse_eval = parse_def symbol_amount_at_def numeral_at_def rupee_def dollar_def dot_def
  float_def digits_value_def digit_value_def is_digit_def is_space_def

theorem parse_no_numeral_witness:
  "\<not> contains_numeral ascii_runtime (u ''  xyz unspecified item '')
   \<and> c_amount (parse ascii_runtime [] (u ''  xyz unspecified item '')) = Some 0
   \<and> c_currency (parse ascii_runtime [] (u ''  xyz unspecified item '')) = Some rupee
   \<and> c_description (parse ascii_runtime [] (u ''  xyz unspecified item ''))
       = Some (u ''  xyz unspecified item '')
   \<and> c_raw_input (parse ascii_runtime [] (u ''  xyz unspecified item ''))
       = Some (u ''  xyz unspecified item '')"
proof -
  have h: "\<not> contains_numeral ascii_runtime (u ''  xyz unspecified item '')"
    unfolding contains_numeral_iff by (simp add: is_digit_def ascii_eval)
  with parse_no_numeral [of ascii_runtime "u ''  xyz unspecified item ''" "[]"]
  show ?thesis by blast
qed


subsection \<open>The longest numeral\<close>

lemma takeWhile_prefix_length:
  "\<forall>x \<in> set n. P x \<Longrightarrow> length n \<le> length (takeWhile P (n @ q))"
  by (simp add: takeWhile_append2)

lemma takeWhile_stop:
  "\<forall>x \<in> set n. P x \<Longrightarrow> \<not> P y \<Longrightarrow>
     takeWhile P (n @ y # t) = n \<and> dropWhile P (n @ y # t) = y # t"
  by (simp add: takeWhile_append2 dropWhile_append2)

lemma all_digits_set: "all_digits R ds \<Longrightarrow> \<forall>x \<in> set ds. is_digit R x"
  by (simp add: all_digits_def list_all_iff)

text \<open>The value of a numeral: its digits read in base ten, the two digits after the point as hundredths.\<close>

lemma float_digits:
  assumes "all_digits R ds"
  shows "float R ds = of_nat (digits_value R ds)"
proof -
  from assms have t: "takeWhile (is_digit R) ds = ds"
    by (simp add: all_digits_def list_all_iff)
  show ?thesis unfolding float_def Let_def t by (simp add: digits_value_def)
qed

lemma float_fraction:
  assumes "all_digits R ds" and "\<not> is_digit R dot"
  shows "float R (ds @ [dot, a, b])
     = of_nat (digits_value R ds) + of_nat (10 * digit_value R a + digit_value R b) / 100"
proof -
  from assms have t: "takeWhile (is_digit R) (ds @ [dot, a, b]) = ds"
    by (simp add: all_digits_def list_all_iff)
  have f: "digits_value R [a, b] = 10 * digit_value R a + digit_value R b"
    by (simp add: digits_value_def)
  show ?thesis unfolding float_def Let_def t by (simp add: f)
qed

lemma numeral_at_cases:
  assumes "numeral_at R r = Some g"
  shows "takeWhile (is_digit R) r \<noteq> []
    \<and> ((g = takeWhile (is_digit R) r
         \<and> \<not> (\<exists>a b t. dropWhile (is_digit R) r = dot # a # b # t \<and> is_digit R a \<and> is_digit R b))
        \<or> (\<exists>a b t. dropWhile (is_digit R) r = dot # a # b # t \<and> is_digit R a \<and> is_digit R b
              \<and> g = takeWhile (is_digit R) r @ [dot, a, b]))"
proof -
  let ?ds = "takeWhile (is_digit R) r" and ?rest = "dropWhile (is_digit R) r"
  from assms have ne: "?ds \<noteq> []" using numeral_at_None_iff [of R r] by auto
  show ?thesis
  proof (cases "\<exists>a b t. ?rest = dot # a # b # t \<and> is_digit R a \<and> is_digit R b")
    case True
    then obtain a b t where d: "?rest = dot # a # b # t" "is_digit R a" "is_digit R b" by blast
    with ne have "numeral_at R r = Some (?ds @ [dot, a, b])"
      by (simp add: numeral_at_def)
    with assms have "g = ?ds @ [dot, a, b]" by simp
    with d ne show ?thesis by blast
  next
    case False
    with ne have "numeral_at R r = Some ?ds"
      by (auto simp: numeral_at_def Let_def split: list.splits)
    with assms have "g = ?ds" by simp
    with False ne show ?thesis by blast
  qed
qed

lemma numeral_at_Some:
  assumes "numeral_at R r = Some g"
  shows "\<exists>q. r = g @ q \<and> is_numeral R g
           \<and> (\<forall>n2 q2. r = n2 @ q2 \<and> is_numeral R n2 \<longrightarrow> length n2 \<le> length g)"
proof -
  let ?ds = "takeWhile (is_digit R) r" and ?rest = "dropWhile (is_digit R) r"
  have split: "r = ?ds @ ?rest" by simp
  from numeral_at_cases [OF assms] have ne: "?ds \<noteq> []" by blast
  have dd: "all_digits R ?ds"
    using ne by (auto simp: all_digits_def list_all_iff dest: set_takeWhileD)
  have len: "length ?ds \<le> length g"
    using numeral_at_cases [OF assms] by auto
  have form: "\<exists>q. r = g @ q \<and> is_numeral R g"
  proof -
    from numeral_at_cases [OF assms]
    consider (plain) "g = ?ds"
      | (frac) a b t where "?rest = dot # a # b # t" "is_digit R a" "is_digit R b"
          "g = ?ds @ [dot, a, b]"
      by blast
    then show ?thesis
    proof cases
      case plain
      then have "r = g @ ?rest" by simp
      moreover have "is_numeral R g" using dd plain by (simp add: is_numeral_def)
      ultimately show ?thesis by blast
    next
      case frac
      then have "r = g @ t" by (metis split append.assoc append_Cons append_Nil)
      moreover have "is_numeral R g" unfolding is_numeral_iff using dd frac by blast
      ultimately show ?thesis by blast
    qed
  qed
  have longest: "length n2 \<le> length g" if d: "r = n2 @ q2" and n: "is_numeral R n2" for n2 q2
  proof -
    from n consider (plain) "all_digits R n2"
      | (frac) ds a b where "all_digits R ds" "is_digit R a" "is_digit R b"
          "n2 = ds @ [dot, a, b]"
      unfolding is_numeral_iff by blast
    then show ?thesis
    proof cases
      case plain
      then have "length n2 \<le> length (takeWhile (is_digit R) (n2 @ q2))"
        by (intro takeWhile_prefix_length all_digits_set)
      with d len show ?thesis by simp
    next
      case frac
      show ?thesis
      proof (cases "is_digit R dot")
        case True
        with frac have "\<forall>x \<in> set n2. is_digit R x" using all_digits_set [of R ds] by auto
        then have "length n2 \<le> length (takeWhile (is_digit R) (n2 @ q2))"
          by (rule takeWhile_prefix_length)
        with d len show ?thesis by simp
      next
        case False
        have r: "r = ds @ dot # (a # b # q2)" using d frac by simp
        from takeWhile_stop [OF all_digits_set [OF frac(1)] False, of "a # b # q2"]
        have tk: "?ds = ds" and dr: "?rest = dot # a # b # q2" unfolding r by simp_all
        from numeral_at_cases [OF assms] dr frac have "g = ?ds @ [dot, a, b]" by auto
        with tk frac show ?thesis by simp
      qed
    qed
  qed
  from form longest show ?thesis by blast
qed

lemma numeral_at_numeral:
  assumes "is_numeral R n"
  shows "numeral_at R (n @ q) \<noteq> None"
proof -
  from is_numeral_hd [OF assms] obtain c n' where "n = c # n'" and "is_digit R c"
    by (cases n) auto
  then show ?thesis by (simp add: numeral_at_None_iff)
qed

lemma spaces_then_numeral:
  assumes "list_all (is_space R) w" and "is_numeral R n"
  shows "dropWhile (is_space R) (w @ n @ q) = n @ q"
proof -
  from is_numeral_hd [OF assms(2)] obtain c n' where n: "n = c # n'" and "is_digit R c"
    by (cases n) auto
  then have "\<not> is_space R c" by (simp add: not_space_digit)
  with assms(1) show ?thesis by (simp add: n dropWhile_append2 list_all_iff)
qed

lemma symbol_amount_at_occurrence:
  assumes "list_all (is_space R) w" and "is_numeral R n"
  shows "symbol_amount_at R symb (symb @ w @ n @ q) = numeral_at R (n @ q)"
  by (simp add: symbol_amount_at_def spaces_then_numeral [OF assms])

lemma symbol_amount_at_Some:
  assumes "symbol_amount_at R symb r = Some g"
  shows "\<exists>w q. occurs_with_symbol R symb r [] w g q
     \<and> (\<forall>w2 n2 q2. occurs_with_symbol R symb r [] w2 n2 q2 \<longrightarrow> length n2 \<le> length g)"
proof -
  from assms have pre: "prefix symb r"
    and na: "numeral_at R (dropWhile (is_space R) (drop (length symb) r)) = Some g"
    by (auto simp: symbol_amount_at_def split: if_splits)
  from pre obtain t where r: "r = symb @ t" by (auto simp: prefix_def)
  from na have na': "numeral_at R (dropWhile (is_space R) t) = Some g" unfolding r by simp
  obtain w where w: "w = takeWhile (is_space R) t" by simp
  from numeral_at_Some [OF na'] obtain q where dq: "dropWhile (is_space R) t = g @ q"
    and gn: "is_numeral R g"
    and lg: "\<forall>n2 q2. dropWhile (is_space R) t = n2 @ q2 \<and> is_numeral R n2
               \<longrightarrow> length n2 \<le> length g"
    by blast
  have "t = w @ g @ q" unfolding w using dq by (metis takeWhile_dropWhile_id)
  then have "r = [] @ symb @ w @ g @ q" unfolding r by simp
  moreover have "list_all (is_space R) w"
    unfolding w by (auto simp: list_all_iff dest: set_takeWhileD)
  ultimately have occ: "occurs_with_symbol R symb r [] w g q"
    using gn unfolding occurs_with_symbol_def by blast
  have "length n2 \<le> length g" if o2: "occurs_with_symbol R symb r [] w2 n2 q2" for w2 n2 q2
  proof -
    from o2 have r2: "symb @ t = symb @ w2 @ n2 @ q2" and w2: "list_all (is_space R) w2"
      and n2: "is_numeral R n2"
      unfolding occurs_with_symbol_def r by simp_all
    from r2 have "t = w2 @ n2 @ q2" by simp
    then have "dropWhile (is_space R) t = n2 @ q2"
      using spaces_then_numeral [OF w2 n2] by simp
    with lg n2 show ?thesis by blast
  qed
  with occ show ?thesis by blast
qed

lemma occurrence_found:
  assumes "occurs_with_symbol R symb text p w n q"
  shows "symbol_amount_at R symb (symb @ w @ n @ q) \<noteq> None"
  using assms
  by (simp add: occurs_with_symbol_def symbol_amount_at_occurrence numeral_at_numeral)

text \<open>The search for a numeral after a symbol finds the leftmost occurrence, at full length.\<close>

lemma search_symbol_leftmost_longest:
  assumes "occurs_with_symbol R symb text p w n q"
  shows "\<exists>g p' w' q'.
      re_search (symbol_amount_at R symb) text = Some g
      \<and> occurs_with_symbol R symb text p' w' g q'
      \<and> (\<forall>p2 w2 n2 q2. occurs_with_symbol R symb text p2 w2 n2 q2 \<longrightarrow>
            length p' < length p2 \<or> (length p' = length p2 \<and> length n2 \<le> length g))"
proof -
  let ?m = "symbol_amount_at R symb"
  have t: "text = p @ (symb @ w @ n @ q)"
    using assms unfolding occurs_with_symbol_def by (elim conjE)
  have "?m (symb @ w @ n @ q) \<noteq> None" by (rule occurrence_found [OF assms])
  have "\<not> (\<forall>p r. text = p @ r \<longrightarrow> ?m r = None)"
  proof
    assume a: "\<forall>p r. text = p @ r \<longrightarrow> ?m r = None"
    have "?m (symb @ w @ n @ q) = None" by (rule a [rule_format, OF t])
    with \<open>?m (symb @ w @ n @ q) \<noteq> None\<close> show False by simp
  qed
  then have "re_search ?m text \<noteq> None" unfolding re_search_None_iff .
  then obtain g where s: "re_search ?m text = Some g" by (cases "re_search ?m text") simp_all
  from re_search_Some [OF s] obtain p' r where d: "text = p' @ r"
    and m: "?m r = Some g"
    and first: "\<forall>p2 r2. text = p2 @ r2 \<and> length p2 < length p' \<longrightarrow> ?m r2 = None"
    by (elim exE conjE)
  from symbol_amount_at_Some [OF m] obtain w' q' where o: "occurs_with_symbol R symb r [] w' g q'"
    and lg: "\<forall>w2 n2 q2. occurs_with_symbol R symb r [] w2 n2 q2 \<longrightarrow> length n2 \<le> length g"
    by (elim exE conjE)
  have o': "occurs_with_symbol R symb text p' w' g q'"
    using o unfolding occurs_with_symbol_def d by simp
  have low: "length p' < length p2 \<or> (length p' = length p2 \<and> length n2 \<le> length g)"
    if o2: "occurs_with_symbol R symb text p2 w2 n2 q2" for p2 w2 n2 q2
  proof -
    have t2: "text = p2 @ (symb @ w2 @ n2 @ q2)"
      using o2 unfolding occurs_with_symbol_def by (elim conjE)
    have f2: "?m (symb @ w2 @ n2 @ q2) \<noteq> None" by (rule occurrence_found [OF o2])
    have ge: "\<not> length p2 < length p'"
    proof
      assume l: "length p2 < length p'"
      have "?m (symb @ w2 @ n2 @ q2) = None"
        by (rule first [rule_format, OF conjI [OF t2 l]])
      with f2 show False by simp
    qed
    have eq: "length n2 \<le> length g" if e: "length p' = length p2"
    proof -
      have "p' @ r = p2 @ (symb @ w2 @ n2 @ q2)" using d t2 by simp
      with e have "r = symb @ w2 @ n2 @ q2"
        using append_eq_append_conv [of p' p2 r "symb @ w2 @ n2 @ q2"] by blast
      with o2 have "occurs_with_symbol R symb r [] w2 n2 q2"
        unfolding occurs_with_symbol_def by simp
      then show ?thesis by (rule lg [rule_format])
    qed
    show ?thesis
    proof (cases "length p' = length p2")
      case True
      with eq show ?thesis by simp
    next
      case False
      with ge show ?thesis by simp
    qed
  qed
  from low have "\<forall>p2 w2 n2 q2. occurs_with_symbol R symb text p2 w2 n2 q2 \<longrightarrow>
            length p' < length p2 \<or> (length p' = length p2 \<and> length n2 \<le> length g)"
    by (intro allI impI)
  with s o' show ?thesis by (intro exI conjI)
qed


text \<open>
  The first search, for the primary symbol as the source spells it. When the text contains
  a decimal numeral preceded by that literal, with optional white space between them,
  \<open>parse\<close> returns the literal as the currency, whatever else the text contains, and the
  amount is the value of such a numeral: of the occurrence whose symbol is leftmost in the
  text, taken at its full length.
\<close>

lemma parse_primary_symbol:
  assumes "occurs_with_symbol R rupee text p w n q"
  shows "c_currency (parse R now text) = Some rupee
    \<and> (\<exists>p' w' n' q'.
          occurs_with_symbol R rupee text p' w' n' q'
          \<and> c_amount (parse R now text) = Some (float R n')
          \<and> (\<forall>p2 w2 n2 q2. occurs_with_symbol R rupee text p2 w2 n2 q2 \<longrightarrow>
                length p' < length p2 \<or> (length p' = length p2 \<and> length n2 \<le> length n')))"
proof -
  from search_symbol_leftmost_longest [OF assms] obtain g p' w' q' where
    s: "re_search (symbol_amount_at R rupee) text = Some g"
    and o: "occurs_with_symbol R rupee text p' w' g q'"
    and l: "\<forall>p2 w2 n2 q2. occurs_with_symbol R rupee text p2 w2 n2 q2 \<longrightarrow>
              length p' < length p2 \<or> (length p' = length p2 \<and> length n2 \<le> length g)"
    by (elim exE conjE)
  from s have c: "c_currency (parse R now text) = Some rupee"
    and a: "c_amount (parse R now text) = Some (float R g)"
    by (simp_all add: parse_def)
  from o a l have "\<exists>p' w' n' q'.
          occurs_with_symbol R rupee text p' w' n' q'
          \<and> c_amount (parse R now text) = Some (float R n')
          \<and> (\<forall>p2 w2 n2 q2. occurs_with_symbol R rupee text p2 w2 n2 q2 \<longrightarrow>
                length p' < length p2 \<or> (length p' = length p2 \<and> length n2 \<le> length n'))"
    by (intro exI conjI)
  with c show ?thesis by (rule conjI)
qed

lemma parse_primary_symbol_example:
  "occurs_with_symbol ascii_runtime rupee
     (u ''$7 and 30 for tea, '' @ rupee @ u ''  12.50 each, '' @ rupee @ u ''99'')
     (u ''$7 and 30 for tea, '') (u ''  '') (u ''12.50'') (u '' each, '' @ rupee @ u ''99'')
   \<and> c_currency (parse ascii_runtime []
        (u ''$7 and 30 for tea, '' @ rupee @ u ''  12.50 each, '' @ rupee @ u ''99'')) = Some rupee
   \<and> c_amount (parse ascii_runtime []
        (u ''$7 and 30 for tea, '' @ rupee @ u ''  12.50 each, '' @ rupee @ u ''99'')) = Some (25 / 2)"
proof -
  let ?t = "u ''$7 and 30 for tea, '' @ rupee @ u ''  12.50 each, '' @ rupee @ u ''99''"
  have t: "?t = u ''$7 and 30 for tea, '' @ rupee @ u ''  '' @ u ''12.50''
                  @ u '' each, '' @ rupee @ u ''99''"
    by (simp add: u_def rupee_def)
  have w: "list_all (is_space ascii_runtime) (u ''  '')"
    by (simp add: is_space_def ascii_eval)
  have n: "is_numeral ascii_runtime (u ''12.50'')"
    by (simp add: is_numeral_def all_digits_def is_digit_def dot_def ascii_eval)
  have o: "occurs_with_symbol ascii_runtime rupee ?t
     (u ''$7 and 30 for tea, '') (u ''  '') (u ''12.50'') (u '' each, '' @ rupee @ u ''99'')"
    unfolding occurs_with_symbol_def using t w n by (intro conjI)
  have a: "c_amount (parse ascii_runtime [] ?t) = Some (25 / 2)"
    by (simp add: parse_eval ascii_eval)
  have c: "c_currency (parse ascii_runtime [] ?t) = Some rupee"
    using parse_primary_symbol [OF o, of "[]"] by (rule conjunct1)
  from o c a show ?thesis by (intro conjI)
qed

section \<open>The analyzer\<close>

declare str_nat.simps [simp del]

lemma nat_of_str_snoc: "nat_of_str (s @ [c]) = 10 * nat_of_str s + (c - 48)"
  by (simp add: nat_of_str_def)

lemma nat_of_str_str_nat: "nat_of_str (str_nat n) = n"
proof (induction n rule: str_nat.induct)
  case (1 n)
  show ?case
  proof (cases "n < 10")
    case True
    then show ?thesis by (simp add: str_nat.simps [of n] nat_of_str_def)
  next
    case False
    with 1 have "nat_of_str (str_nat (n div 10)) = n div 10" by simp
    with False show ?thesis by (simp add: str_nat.simps [of n] nat_of_str_snoc)
  qed
qed

lemma id_number_exp: "id_number (u ''exp_'' @ str_nat n) = n"
  by (simp add: id_number_def u_def nat_of_str_str_nat)

lemma session_state_log_now [simp]:
  "session_state (log_now R a t m sys) = session_state sys"
  by (simp add: log_now_def)

lemma build_expense_id:
  "build_expense i c =
     (case build_expense [] c of Inl e \<Rightarrow> Inl e | Inr expense \<Rightarrow> Inr (expense\<lparr>e_id := i\<rparr>))"
  by (simp add: build_expense_def split: option.splits)

lemma build_expense_record_of:
  "build_expense i c = Inr expense \<longleftrightarrow> (\<exists>r. record_of c = Some r \<and> expense = r\<lparr>e_id := i\<rparr>)"
  unfolding record_of_def build_expense_id [of i c] by (auto split: sum.splits)

lemma build_expense_Inr_id: "build_expense i c = Inr expense \<Longrightarrow> e_id expense = i"
  by (auto simp: build_expense_record_of)

lemma build_expense_missing:
  "build_expense i c = Inl e \<longleftrightarrow> missing_fields c \<noteq> [] \<and> e = KeyError (hd (missing_fields c))"
  by (auto simp: build_expense_def missing_fields_def split: option.splits)

lemma record_of_None: "record_of c = None \<longleftrightarrow> missing_fields c \<noteq> []"
  by (auto simp: record_of_def build_expense_def missing_fields_def split: option.splits)

text \<open>What one call of the analyzer returns and what it does to the session state.\<close>

lemma execute_result:
  "fst (BudgetAnalyzerAgent_execute R c sys) =
     (case build_expense (u ''exp_'' @ str_nat (length (expenses (session_state sys)) + 1)) c of
        Inl e \<Rightarrow> Inl e
      | Inr expense \<Rightarrow>
          Inr \<lparr>r_expense = expense,
               r_insights = generate_insights (add_expense expense (session_state sys))\<rparr>)"
  by (simp add: BudgetAnalyzerAgent_execute_def Let_def split: sum.splits)

lemma execute_session:
  "session_state (snd (BudgetAnalyzerAgent_execute R c sys)) =
     (case build_expense (u ''exp_'' @ str_nat (length (expenses (session_state sys)) + 1)) c of
        Inl e \<Rightarrow> session_state sys
      | Inr expense \<Rightarrow> add_expense expense (session_state sys))"
  by (simp add: BudgetAnalyzerAgent_execute_def Let_def split: sum.splits)

lemma analyze_all_snoc:
  "analyze_all R (cs @ [c]) sys = snd (BudgetAnalyzerAgent_execute R c (analyze_all R cs sys))"
  by (simp add: analyze_all_def)

lemma init_expenses: "expenses (session_state (PersonalFinanceAgentSystem_init R)) = []"
  by (simp add: PersonalFinanceAgentSystem_init_def SessionState_init_def split: prod.splits)

text \<open>The ids and the contents of the stored records after any sequence of calls.\<close>

lemma analyze_all_records:
  "map e_id (expenses (session_state (analyze_all R cs (PersonalFinanceAgentSystem_init R))))
     = map (\<lambda>i. u ''exp_'' @ str_nat (Suc i))
         [0..<length (expenses (session_state (analyze_all R cs (PersonalFinanceAgentSystem_init R))))]
   \<and> map (\<lambda>e. e\<lparr>e_id := []\<rparr>)
        (expenses (session_state (analyze_all R cs (PersonalFinanceAgentSystem_init R))))
     = List.map_filter record_of cs"
proof (induction cs rule: rev_induct)
  case Nil
  show ?case by (simp add: analyze_all_def init_expenses map_filter_simps)
next
  case (snoc c cs)
  let ?sys = "analyze_all R cs (PersonalFinanceAgentSystem_init R)"
  let ?es = "expenses (session_state ?sys)"
  let ?i = "u ''exp_'' @ str_nat (length ?es + 1)"
  have mf: "List.map_filter record_of (cs @ [c])
     = List.map_filter record_of cs @ (case record_of c of None \<Rightarrow> [] | Some r \<Rightarrow> [r])"
    by (simp add: map_filter_def split: option.splits)
  show ?case
  proof (cases "build_expense ?i c")
    case (Inl e)
    then have s: "session_state (analyze_all R (cs @ [c]) (PersonalFinanceAgentSystem_init R))
        = session_state ?sys"
      by (simp add: analyze_all_snoc execute_session)
    from Inl have "record_of c = None"
      by (simp add: record_of_None build_expense_missing)
    with snoc show ?thesis unfolding s mf by simp
  next
    case (Inr expense)
    then have s: "expenses (session_state (analyze_all R (cs @ [c]) (PersonalFinanceAgentSystem_init R)))
        = ?es @ [expense]"
      by (simp add: analyze_all_snoc execute_session add_expense_def)
    from Inr obtain r where r: "record_of c = Some r" and e: "expense = r\<lparr>e_id := ?i\<rparr>"
      by (auto simp: build_expense_record_of)
    have "e_id r = []" using r
      by (auto simp: record_of_def build_expense_def split: option.splits sum.splits)
    then have strip: "expense\<lparr>e_id := []\<rparr> = r" unfolding e by simp
    have idx: "e_id expense = ?i" unfolding e by simp
    from snoc show ?thesis unfolding s mf r by (simp add: strip idx)
  qed
qed

text \<open>
  Claim C5. After any sequence of calls of the analyzer on a fresh system, successful or
  not, the stored records carry the ids \<open>exp_1\<close>, \<open>exp_2\<close>, ... in this order: the sequence
  numbers of the ids increase strictly, no id occurs twice, and the records are those of
  the candidates that had all their fields, in the order of the calls. A further call that
  succeeds gives its record the id with the number \<open>count + 1\<close> and puts it last.
\<close>

theorem analyzer_sequential_ids:
  "map e_id (expenses (session_state (analyze_all R cs (PersonalFinanceAgentSystem_init R))))
     = map (\<lambda>i. u ''exp_'' @ str_nat (Suc i))
         [0..<length (expenses (session_state (analyze_all R cs (PersonalFinanceAgentSystem_init R))))]
   \<and> sorted_wrt (<)
        (map (\<lambda>e. id_number (e_id e))
           (expenses (session_state (analyze_all R cs (PersonalFinanceAgentSystem_init R)))))
   \<and> distinct
        (map e_id (expenses (session_state (analyze_all R cs (PersonalFinanceAgentSystem_init R)))))
   \<and> map (\<lambda>e. e\<lparr>e_id := []\<rparr>)
        (expenses (session_state (analyze_all R cs (PersonalFinanceAgentSystem_init R))))
     = List.map_filter record_of cs
   \<and> (\<forall>c res.
         fst (BudgetAnalyzerAgent_execute R c (analyze_all R cs (PersonalFinanceAgentSystem_init R)))
           = Inr res
         \<longrightarrow> e_id (r_expense res)
               = u ''exp_'' @ str_nat (get_expense_count
                   (session_state (analyze_all R cs (PersonalFinanceAgentSystem_init R))) + 1)
             \<and> expenses (session_state (snd (BudgetAnalyzerAgent_execute R c
                   (analyze_all R cs (PersonalFinanceAgentSystem_init R)))))
               = expenses (session_state (analyze_all R cs (PersonalFinanceAgentSystem_init R)))
                   @ [r_expense res])"
proof -
  let ?sys = "analyze_all R cs (PersonalFinanceAgentSystem_init R)"
  let ?es = "expenses (session_state ?sys)"
  from analyze_all_records [of R cs]
  have ids: "map e_id ?es = map (\<lambda>i. u ''exp_'' @ str_nat (Suc i)) [0..<length ?es]"
    and order: "map (\<lambda>e. e\<lparr>e_id := []\<rparr>) ?es = List.map_filter record_of cs"
    by simp_all
  have n2: "map id_number (map e_id ?es) = map Suc [0..<length ?es]"
    unfolding ids by (simp add: id_number_exp)
  then have nums: "map (\<lambda>e. id_number (e_id e)) ?es = map Suc [0..<length ?es]"
    by (simp add: comp_def)
  have incr: "sorted_wrt (<) (map (\<lambda>e. id_number (e_id e)) ?es)"
    unfolding nums by (simp add: sorted_wrt_map)
  have "distinct (map Suc [0..<length ?es])" by (simp add: distinct_map)
  then have "distinct (map id_number (map e_id ?es))" by (simp only: n2)
  then have dist: "distinct (map e_id ?es)"
    using distinct_map [of id_number "map e_id ?es"] by blast
  have step: "e_id (r_expense res) = u ''exp_'' @ str_nat (get_expense_count (session_state ?sys) + 1)
      \<and> expenses (session_state (snd (BudgetAnalyzerAgent_execute R c ?sys))) = ?es @ [r_expense res]"
    if "fst (BudgetAnalyzerAgent_execute R c ?sys) = Inr res" for c res
  proof -
    let ?i = "u ''exp_'' @ str_nat (length ?es + 1)"
    from that obtain expense where b: "build_expense ?i c = Inr expense"
      and res: "r_expense res = expense"
      unfolding execute_result by (auto split: sum.splits)
    from b have "e_id expense = ?i" by (rule build_expense_Inr_id)
    moreover from b have "expenses (session_state (snd (BudgetAnalyzerAgent_execute R c ?sys)))
        = ?es @ [expense]"
      by (simp add: execute_session add_expense_def)
    ultimately show ?thesis by (simp add: res get_expense_count_def)
  qed
  from ids incr dist order step show ?thesis by blast
qed

lemma str_nat_digit: "n < 10 \<Longrightarrow> str_nat n = [48 + n]"
  by (simp add: str_nat.simps [of n])

lemma build_ex_candidate: "build_expense i ex_candidate = Inr (ex_expense i)"
  by (simp add: build_expense_def ex_candidate_def ex_expense_def)

lemma build_ex_unclassified: "build_expense i ex_unclassified = Inl (KeyError (u ''category''))"
  by (simp add: build_expense_def ex_unclassified_def ex_candidate_def)

lemma ex_session_expenses:
  "expenses (session_state ex_session) = [ex_expense (u ''exp_1''), ex_expense (u ''exp_2'')]"
  by (simp add: ex_session_def analyze_all_def execute_session init_expenses
      build_ex_candidate build_ex_unclassified add_expense_def str_nat_digit u_def)

theorem analyzer_sequential_ids_witness:
  "fst (BudgetAnalyzerAgent_execute ascii_runtime ex_candidate ex_session) = Inr ex_result
   \<and> map e_id (expenses (session_state ex_session)) = [u ''exp_1'', u ''exp_2'']
   \<and> e_id (r_expense ex_result) = u ''exp_3''
   \<and> expenses (session_state (snd (BudgetAnalyzerAgent_execute ascii_runtime ex_candidate
        ex_session)))
      = [ex_expense (u ''exp_1''), ex_expense (u ''exp_2''), ex_expense (u ''exp_3'')]"
proof -
  have three: "u ''exp_'' @ str_nat (Suc (Suc (Suc 0))) = u ''exp_3''"
    by (simp add: str_nat_digit u_def)
  have h: "fst (BudgetAnalyzerAgent_execute ascii_runtime ex_candidate ex_session) = Inr ex_result"
    by (simp add: execute_result ex_session_expenses build_ex_candidate three ex_result_def)
  have ids: "map e_id (expenses (session_state ex_session)) = [u ''exp_1'', u ''exp_2'']"
    by (simp add: ex_session_expenses ex_expense_def)
  from analyzer_sequential_ids
    [of ascii_runtime "[ex_candidate, ex_unclassified, ex_candidate]", folded ex_session_def] h
  have "e_id (r_expense ex_result)
          = u ''exp_'' @ str_nat (get_expense_count (session_state ex_session) + 1)
        \<and> expenses (session_state (snd (BudgetAnalyzerAgent_execute ascii_runtime ex_candidate
             ex_session)))
          = expenses (session_state ex_session) @ [r_expense ex_result]"
    by blast
  then have "e_id (r_expense ex_result) = u ''exp_3''"
    and "expenses (session_state (snd (BudgetAnalyzerAgent_execute ascii_runtime ex_candidate
             ex_session)))
          = [ex_expense (u ''exp_1''), ex_expense (u ''exp_2''), ex_expense (u ''exp_3'')]"
    by (simp_all add: get_expense_count_def ex_session_expenses three ex_result_def)
  with h ids show ?thesis by blast
qed

lemma logger_log_now [simp]: "logger (log_now R a t m sys) = logger sys"
  by (simp add: log_now_def)

lemma stored_events_log_now:
  "stored_events (logger sys) (heap (log_now R a t m sys)) =
     stored_events (logger sys) (heap sys)
       @ [\<lparr>ev_timestamp = isoformat_now R (ticks sys), ev_agent = a, ev_type = t,
           ev_message = m\<rparr>]"
  by (simp add: log_now_def logger_log_def list_append_def stored_events_def)

text \<open>
  Claim C6. When one of the six fields of a classified candidate is absent, the call of the
  analyzer fails: the \<open>KeyError\<close> of the first absent field, in the order in which the fields
  are read, reaches the caller (the failure the specification calls a validation error).
  The failed call leaves the session state as it was, so the records, the count, the total
  and the category totals are unchanged; it adds a \<open>start\<close> and an \<open>error\<close> event to the log.
\<close>

theorem analyzer_missing_field:
  assumes "c_amount c = None \<or> c_currency c = None \<or> c_description c = None
           \<or> c_category c = None \<or> c_parsed_at c = None \<or> c_raw_input c = None"
  shows "fst (BudgetAnalyzerAgent_execute R c sys) = Inl (KeyError (hd (missing_fields c)))
    \<and> hd (missing_fields c) \<in> set (missing_fields c)
    \<and> session_state (snd (BudgetAnalyzerAgent_execute R c sys)) = session_state sys
    \<and> expenses (session_state (snd (BudgetAnalyzerAgent_execute R c sys)))
        = expenses (session_state sys)
    \<and> get_expense_count (session_state (snd (BudgetAnalyzerAgent_execute R c sys)))
        = get_expense_count (session_state sys)
    \<and> get_total (session_state (snd (BudgetAnalyzerAgent_execute R c sys)))
        = get_total (session_state sys)
    \<and> get_category_totals (session_state (snd (BudgetAnalyzerAgent_execute R c sys)))
        = get_category_totals (session_state sys)
    \<and> map ev_type (stored_events (logger (snd (BudgetAnalyzerAgent_execute R c sys)))
                      (heap (snd (BudgetAnalyzerAgent_execute R c sys))))
        = map ev_type (stored_events (logger sys) (heap sys)) @ [u ''start'', u ''error'']"
proof -
  from assms have m: "missing_fields c \<noteq> []" by (auto simp: missing_fields_def)
  then have b: "build_expense i c = Inl (KeyError (hd (missing_fields c)))" for i
    by (simp add: build_expense_missing)
  have r: "fst (BudgetAnalyzerAgent_execute R c sys) = Inl (KeyError (hd (missing_fields c)))"
    by (simp add: execute_result b)
  have s: "session_state (snd (BudgetAnalyzerAgent_execute R c sys)) = session_state sys"
    by (simp add: execute_session b)
  let ?sys1 = "log_now R (u ''BudgetAnalyzerAgent'') (u ''start'') (u ''Analyzing budget impact'') sys"
  have sys': "snd (BudgetAnalyzerAgent_execute R c sys)
      = log_now R (u ''BudgetAnalyzerAgent'') (u ''error'')
          (u ''Analysis failed: '' @ str_error (KeyError (hd (missing_fields c)))) ?sys1"
    using b by (simp add: BudgetAnalyzerAgent_execute_def Let_def)
  have l: "map ev_type (stored_events (logger (snd (BudgetAnalyzerAgent_execute R c sys)))
                      (heap (snd (BudgetAnalyzerAgent_execute R c sys))))
        = map ev_type (stored_events (logger sys) (heap sys)) @ [u ''start'', u ''error'']"
    unfolding sys'
    using stored_events_log_now [of ?sys1 R] stored_events_log_now [of sys R]
    by simp
  from m have "hd (missing_fields c) \<in> set (missing_fields c)" by simp
  with r s l show ?thesis by simp
qed

theorem analyzer_missing_field_witness:
  "c_category ex_unclassified = None
   \<and> fst (BudgetAnalyzerAgent_execute ascii_runtime ex_unclassified ex_session)
       = Inl (KeyError (u ''category''))
   \<and> expenses (session_state (snd (BudgetAnalyzerAgent_execute ascii_runtime ex_unclassified
        ex_session)))
       = [ex_expense (u ''exp_1''), ex_expense (u ''exp_2'')]"
proof -
  have h: "c_category ex_unclassified = None" by (simp add: ex_unclassified_def)
  then have "c_amount ex_unclassified = None \<or> c_currency ex_unclassified = None
      \<or> c_description ex_unclassified = None \<or> c_category ex_unclassified = None
      \<or> c_parsed_at ex_unclassified = None \<or> c_raw_input ex_unclassified = None" by simp
  from analyzer_missing_field [OF this, of ascii_runtime ex_session]
  have "fst (BudgetAnalyzerAgent_execute ascii_runtime ex_unclassified ex_session)
          = Inl (KeyError (hd (missing_fields ex_unclassified)))"
    and "expenses (session_state (snd (BudgetAnalyzerAgent_execute ascii_runtime ex_unclassified
          ex_session))) = expenses (session_state ex_session)"
    by blast+
  moreover have "hd (missing_fields ex_unclassified) = u ''category''"
    by (simp add: missing_fields_def ex_unclassified_def ex_candidate_def)
  ultimately show ?thesis using h by (simp add: ex_session_expenses)
qed

section \<open>The log\<close>

text \<open>
  Claim C8, as stated, fails: \<open>get_logs\<close> returns the reference of the logger's own list, and
  clearing the list through the returned value empties the stored event sequence.
\<close>

theorem get_logs_counterexample:
  "stored_events ex_logger (list_clear (get_logs ex_logger) ex_store)
     \<noteq> stored_events ex_logger ex_store"
  by (simp add: stored_events_def list_clear_def get_logs_def ex_store_def ex_logger_def
      logger_log_def list_append_def AgentLogger_init_def empty_store_def)

text \<open>
  Claim C8, amended. \<open>get_logs\<close> returns the list object the logger itself holds, not a copy:
  an append or a clear made through the returned value is an append to, or a clear of, the
  stored event sequence.
\<close>

theorem get_logs_alias:
  "get_logs L = logs L
   \<and> stored_events L (list_append (get_logs L) x \<sigma>) = stored_events L \<sigma> @ [x]
   \<and> stored_events L (list_clear (get_logs L) \<sigma>) = []"
  by (simp add: stored_events_def list_clear_def list_append_def get_logs_def)

section \<open>The pipeline\<close>

lemma float_nonneg: "0 \<le> float R g"
  by (simp add: float_def Let_def)

lemma parse_shape:
  "\<exists>a cu. 0 \<le> a
     \<and> (\<forall>now. parse R now t =
           \<lparr>c_amount = Some a, c_currency = Some cu, c_description = Some t,
            c_raw_input = Some t, c_parsed_at = Some now, c_category = None\<rparr>)"
proof -
  let ?pair = "(case re_search (symbol_amount_at R rupee) t of
               Some g \<Rightarrow> (float R g, rupee)
             | None \<Rightarrow>
                 (case re_search (symbol_amount_at R dollar) t of
                    Some g \<Rightarrow> (float R g, dollar)
                  | None \<Rightarrow>
                      (case re_search (numeral_at R) t of
                         Some g \<Rightarrow> (float R g, rupee)
                       | None \<Rightarrow> (0, rupee))))"
  have "0 \<le> fst ?pair" by (simp add: float_nonneg split: option.splits)
  moreover have "\<forall>now. parse R now t =
           \<lparr>c_amount = Some (fst ?pair), c_currency = Some (snd ?pair), c_description = Some t,
            c_raw_input = Some t, c_parsed_at = Some now, c_category = None\<rparr>"
    by (simp add: parse_def Let_def split: prod.splits)
  ultimately show ?thesis by blast
qed

lemma process_expense_appends:
  "\<exists>res e. fst (process_expense R t sys) = Inr res \<and> r_expense res = e \<and> 0 \<le> e_amount e
     \<and> session_state (snd (process_expense R t sys)) = add_expense e (session_state sys)"
proof -
  from parse_shape [of R t] obtain a cu where a: "0 \<le> a"
    and p: "\<And>now. parse R now t =
           \<lparr>c_amount = Some a, c_currency = Some cu, c_description = Some t,
            c_raw_input = Some t, c_parsed_at = Some now, c_category = None\<rparr>"
    by blast
  show ?thesis
    using a
    by (simp add: process_expense_def InputParserAgent_execute_def
        CategoryClassifierAgent_execute_def BudgetAnalyzerAgent_execute_def build_expense_def
        Let_def p)
qed

lemma get_total_add_expense: "get_total (add_expense e s) = get_total s + e_amount e"
  by (simp add: get_total_sum_list add_expense_def)

lemma process_all_snoc:
  "process_all R (ts @ [t]) sys = snd (process_expense R t (process_all R ts sys))"
  by (simp add: process_all_def)

lemma process_all_total_nonneg:
  "0 \<le> get_total (session_state (process_all R ts (PersonalFinanceAgentSystem_init R)))"
proof (induction ts rule: rev_induct)
  case Nil
  show ?case by (simp add: process_all_def get_total_sum_list init_expenses)
next
  case (snoc t ts)
  let ?sys = "process_all R ts (PersonalFinanceAgentSystem_init R)"
  from process_expense_appends [of R t ?sys] obtain e where "0 \<le> e_amount e"
    and "session_state (snd (process_expense R t ?sys)) = add_expense e (session_state ?sys)"
    by blast
  with snoc show ?case by (simp add: process_all_snoc get_total_add_expense)
qed

text \<open>
  Claim C10. The amount that \<open>parse\<close> extracts is never negative. Every call of
  \<open>process_expense\<close> succeeds, and after any sequence of calls on a fresh system the total of
  the ledger is at least 0 and is not decreased by a further call.
\<close>

theorem total_nonneg_monotone:
  "(\<exists>a. c_amount (parse R now text) = Some a \<and> 0 \<le> a)
   \<and> 0 \<le> get_total (session_state (process_all R texts (PersonalFinanceAgentSystem_init R)))
   \<and> (\<exists>res. fst (process_expense R text
                 (process_all R texts (PersonalFinanceAgentSystem_init R))) = Inr res)
   \<and> get_total (session_state (process_all R texts (PersonalFinanceAgentSystem_init R)))
       \<le> get_total (session_state (snd (process_expense R text
             (process_all R texts (PersonalFinanceAgentSystem_init R)))))"
proof -
  let ?sys = "process_all R texts (PersonalFinanceAgentSystem_init R)"
  from parse_shape [of R "text"] have 1: "\<exists>a. c_amount (parse R now text) = Some a \<and> 0 \<le> a"
    by auto
  from process_expense_appends [of R "text" ?sys] obtain res e where
    r: "fst (process_expense R text ?sys) = Inr res" and e: "0 \<le> e_amount e"
    and s: "session_state (snd (process_expense R text ?sys)) = add_expense e (session_state ?sys)"
    by blast
  from e have 4: "get_total (session_state ?sys)
       \<le> get_total (session_state (snd (process_expense R text ?sys)))"
    by (simp add: s get_total_add_expense)
  from 1 process_all_total_nonneg [of R texts] r 4 show ?thesis by blast
qed


lemma process_expense_total:
  assumes "c_amount (parse R now t) = Some a"
  shows "get_total (session_state (snd (process_expense R t sys)))
           = get_total (session_state sys) + a"
proof -
  from parse_shape [of R t] obtain a' cu where
    p: "\<And>now. parse R now t =
           \<lparr>c_amount = Some a', c_currency = Some cu, c_description = Some t,
            c_raw_input = Some t, c_parsed_at = Some now, c_category = None\<rparr>"
    by blast
  with assms have "a' = a" by simp
  have "session_state (snd (process_expense R t sys))
      = add_expense
          \<lparr>e_id = u ''exp_'' @ str_nat (Suc (length (expenses (session_state sys)))),
           e_amount = a', e_currency = cu, e_description = t,
           e_category = classify R t, e_timestamp = isoformat_now R (Suc (ticks sys)),
           e_raw_input = t\<rparr> (session_state sys)"
    by (simp add: process_expense_def InputParserAgent_execute_def
        CategoryClassifierAgent_execute_def BudgetAnalyzerAgent_execute_def build_expense_def
        Let_def p log_now_def)
  then show ?thesis by (simp add: get_total_add_expense \<open>a' = a\<close>)
qed

theorem total_nonneg_monotone_witness:
  "get_total (session_state (process_all ascii_runtime [u ''Tea '' @ rupee @ u ''20.50'', u ''gift'']
      (PersonalFinanceAgentSystem_init ascii_runtime))) = 41 / 2
   \<and> get_total (session_state (snd (process_expense ascii_runtime (u ''bus 15'')
        (process_all ascii_runtime [u ''Tea '' @ rupee @ u ''20.50'', u ''gift'']
          (PersonalFinanceAgentSystem_init ascii_runtime))))) = 71 / 2
   \<and> (41 / 2 :: rat) \<le> 71 / 2"
proof -
  let ?init = "PersonalFinanceAgentSystem_init ascii_runtime"
  let ?ts = "[u ''Tea '' @ rupee @ u ''20.50'', u ''gift'']"
  have a1: "c_amount (parse ascii_runtime [] (u ''Tea '' @ rupee @ u ''20.50'')) = Some (41 / 2)"
    by (simp add: parse_eval ascii_eval)
  have a2: "c_amount (parse ascii_runtime [] (u ''gift'')) = Some 0"
    by (simp add: parse_eval ascii_eval)
  have a3: "c_amount (parse ascii_runtime [] (u ''bus 15'')) = Some 15"
    by (simp add: parse_eval ascii_eval)
  have t0: "get_total (session_state ?init) = 0"
    by (simp add: get_total_sum_list init_expenses)
  have t2: "get_total (session_state (process_all ascii_runtime ?ts ?init)) = 41 / 2"
    by (simp add: process_all_def process_expense_total [OF a1] process_expense_total [OF a2] t0)
  have t3: "get_total (session_state (snd (process_expense ascii_runtime (u ''bus 15'')
        (process_all ascii_runtime ?ts ?init)))) = 71 / 2"
    by (simp add: process_expense_total [OF a3] t2)
  from total_nonneg_monotone [of ascii_runtime "[]" "u ''bus 15''" ?ts]
  have "get_total (session_state (process_all ascii_runtime ?ts ?init))
       \<le> get_total (session_state (snd (process_expense ascii_runtime (u ''bus 15'')
             (process_all ascii_runtime ?ts ?init))))"
    by blast
  then have "(41 / 2 :: rat) \<le> 71 / 2" unfolding t2 t3 .
  with t2 t3 show ?thesis by blast
qed

section \<open>Properties of the ledger in floating-point arithmetic\<close>

lemma set_first_seen: "set (first_seen seen xs) = set seen \<union> set xs"
  unfolding first_seen_def by (induction xs arbitrary: seen) auto

lemma distinct_first_seen: "distinct seen \<Longrightarrow> distinct (first_seen seen xs)"
  unfolding first_seen_def by (induction xs arbitrary: seen) auto

lemma first_seen_snoc:
  "first_seen seen (xs @ [x]) =
     (if x \<in> set (first_seen seen xs) then first_seen seen xs else first_seen seen xs @ [x])"
  by (simp add: first_seen_def)

lemma dict_get_map: "dict_get (map (\<lambda>k. (k, f k)) ks) c d = (if c \<in> set ks then f c else d)"
  by (induction ks) auto

lemma dict_set_map_new:
  "c \<notin> set ks \<Longrightarrow> dict_set (map (\<lambda>k. (k, f k)) ks) c v = map (\<lambda>k. (k, f k)) ks @ [(c, v)]"
  by (induction ks) auto

lemma dict_set_map_old:
  "c \<in> set ks \<Longrightarrow> distinct ks \<Longrightarrow>
     dict_set (map (\<lambda>k. (k, f k)) ks) c v = map (\<lambda>k. (k, if k = c then v else f k)) ks"
proof (induction ks)
  case Nil
  then show ?case by simp
next
  case (Cons k ks)
  show ?case
  proof (cases "k = c")
    case True
    with Cons.prems have "c \<notin> set ks" by simp
    then have "map (\<lambda>k. (k, if k = c then v else f k)) ks = map (\<lambda>k. (k, f k)) ks"
      by (intro map_cong) auto
    with True show ?thesis by simp
  next
    case False
    with Cons show ?thesis by simp
  qed
qed

lemma category_amounts_snoc:
  "category_amounts k (es @ [e]) =
     category_amounts k es @ (if e_category e = k then [e_amount e] else [])"
  by (simp add: category_amounts_def)

lemma category_amounts_absent:
  "k \<notin> set (map e_category es) \<Longrightarrow> category_amounts k es = []"
  by (auto simp: category_amounts_def filter_empty_conv)

lemma get_category_totals_fp_characterised:
  "foldl (\<lambda>totals expense.
              dict_set totals (e_category expense)
                (add (dict_get totals (e_category expense) 0) (e_amount expense))) [] es
   = map (\<lambda>c. (c, foldl add 0 (category_amounts c es))) (first_seen [] (map e_category es))"
proof (induction es rule: rev_induct)
  case Nil
  show ?case by (simp add: first_seen_def)
next
  case (snoc e es)
  let ?ks = "first_seen [] (map e_category es)"
  let ?F = "\<lambda>k. foldl add 0 (category_amounts k es)"
  let ?c = "e_category e" and ?a = "e_amount e"
  have ks: "set ?ks = set (map e_category es)" by (simp add: set_first_seen)
  have dk: "distinct ?ks" by (simp add: distinct_first_seen)
  have F': "foldl add 0 (category_amounts k (es @ [e])) = (if k = ?c then add (?F k) ?a else ?F k)"
    for k by (simp add: category_amounts_snoc)
  have step: "foldl (\<lambda>totals expense.
              dict_set totals (e_category expense)
                (add (dict_get totals (e_category expense) 0) (e_amount expense))) [] (es @ [e])
     = dict_set (map (\<lambda>k. (k, ?F k)) ?ks) ?c (add (dict_get (map (\<lambda>k. (k, ?F k)) ?ks) ?c 0) ?a)"
    by (simp add: snoc.IH)
  show ?case
  proof (cases "?c \<in> set ?ks")
    case True
    then have fs: "first_seen [] (map e_category (es @ [e])) = ?ks"
      by (simp add: first_seen_snoc)
    have "dict_set (map (\<lambda>k. (k, ?F k)) ?ks) ?c (add (dict_get (map (\<lambda>k. (k, ?F k)) ?ks) ?c 0) ?a)
        = map (\<lambda>k. (k, if k = ?c then add (?F ?c) ?a else ?F k)) ?ks"
      using True dk by (simp add: dict_get_map dict_set_map_old)
    also have "\<dots> = map (\<lambda>k. (k, foldl add 0 (category_amounts k (es @ [e])))) ?ks"
      by (intro map_cong) (auto simp: F')
    finally show ?thesis unfolding step fs .
  next
    case False
    then have fs: "first_seen [] (map e_category (es @ [e])) = ?ks @ [?c]"
      by (simp add: first_seen_snoc)
    from False ks have "category_amounts ?c es = []"
      by (intro category_amounts_absent) simp
    then have Fc: "?F ?c = 0" by simp
    have A: "dict_set (map (\<lambda>k. (k, ?F k)) ?ks) ?c (add (dict_get (map (\<lambda>k. (k, ?F k)) ?ks) ?c 0) ?a)
        = map (\<lambda>k. (k, ?F k)) ?ks @ [(?c, add 0 ?a)]"
      using False by (simp add: dict_get_map dict_set_map_new)
    have B: "map (\<lambda>k. (k, ?F k)) ?ks
        = map (\<lambda>k. (k, foldl add 0 (category_amounts k (es @ [e])))) ?ks"
      using False by (intro map_cong) (auto simp: F')
    have C: "add 0 ?a = foldl add 0 (category_amounts ?c (es @ [e]))"
      by (simp add: F' Fc)
    show ?thesis unfolding step A fs by (simp add: B C)
  qed
qed

lemma get_category_totals_fp_exact: "get_category_totals_fp (+) s = get_category_totals s"
  by (simp add: get_category_totals_fp_def get_category_totals_def)

lemma get_total_fp_exact: "get_total_fp sum_list s = get_total s"
  by (simp add: get_total_fp_def get_total_sum_list)


text \<open>The additions of the example, evaluated.\<close>

lemma decimal_doubles: "double_round (1 / 10) = d010" "double_round (11 / 10) = d110"
  by code_simp+

lemma double_steps:
  "double_add 0 d010 = d010"
  "double_add d010 d010 = 3602879701896397 / 18014398509481984"
  "double_add (3602879701896397 / 18014398509481984) d110 = 5854679515581645 / 4503599627370496"
  "double_add d010 d110 = 1351079888211149 / 1125899906842624"
  "double_add 0 (1351079888211149 / 1125899906842624) = 1351079888211149 / 1125899906842624"
  "double_add (1351079888211149 / 1125899906842624) d010 = 2927339757790823 / 2251799813685248"
  by code_simp+

lemma ex_float_ledger_totals:
  "get_category_totals_fp double_add ex_float_ledger
     = [(u ''food'', 1351079888211149 / 1125899906842624), (u ''transportation'', d010)]"
  by (simp add: get_category_totals_fp_def ex_float_ledger_def appends_def add_expense_def
      SessionState_init_def u_def double_steps)

text \<open>
  Claim C1, as stated, fails on floats: for the amounts 0.1, 0.1 and 1.1 in the categories
  food, transportation and food, the total is the double 1.3 and the values of the
  category totals sum to the next double, 1.3000000000000003.
\<close>

theorem ledger_float_counterexample:
  "get_total_fp double_sum ex_float_ledger = 5854679515581645 / 4503599627370496
   \<and> double_sum (map snd (get_category_totals_fp double_add ex_float_ledger))
       = 2927339757790823 / 2251799813685248
   \<and> double_sum (map snd (get_category_totals_fp double_add ex_float_ledger))
       \<noteq> get_total_fp double_sum ex_float_ledger"
proof -
  have t: "get_total_fp double_sum ex_float_ledger = 5854679515581645 / 4503599627370496"
    by (simp add: get_total_fp_def double_sum_def ex_float_ledger_def appends_def
        add_expense_def SessionState_init_def double_steps)
  have v: "double_sum (map snd (get_category_totals_fp double_add ex_float_ledger))
       = 2927339757790823 / 2251799813685248"
    by (simp add: ex_float_ledger_totals double_sum_def double_steps)
  have "(2927339757790823 / 2251799813685248 :: rat) \<noteq> 5854679515581645 / 4503599627370496"
    by simp
  with t v show ?thesis by simp
qed

text \<open>
  Claim C1, amended. After any sequence of appends to a fresh ledger the count is the
  number of appends; the total is the float sum of the appended amounts in their order;
  the category totals have exactly the categories of the stored records as keys, each
  once and in the order of first appearance, and the value of a category is the float sum,
  from left to right from 0, of the amounts of its records. The values of the category
  totals sum to the total when the additions are exact.
\<close>

theorem ledger_after_appends_fp:
  "get_expense_count (appends es (SessionState_init sid now)) = length es
   \<and> get_total_fp fsum (appends es (SessionState_init sid now)) = fsum (map e_amount es)
   \<and> get_category_totals_fp add (appends es (SessionState_init sid now))
       = map (\<lambda>c. (c, foldl add 0 (category_amounts c es))) (first_seen [] (map e_category es))
   \<and> set (map fst (get_category_totals_fp add (appends es (SessionState_init sid now))))
       = set (map e_category (expenses (appends es (SessionState_init sid now))))
   \<and> distinct (map fst (get_category_totals_fp add (appends es (SessionState_init sid now))))
   \<and> sum_list (map snd (get_category_totals_fp (+) (appends es (SessionState_init sid now))))
       = get_total_fp sum_list (appends es (SessionState_init sid now))"
proof -
  let ?L = "appends es (SessionState_init sid now)"
  have ex: "expenses ?L = es" by (simp add: expenses_appends SessionState_init_def)
  have c: "get_category_totals_fp add ?L
       = map (\<lambda>c. (c, foldl add 0 (category_amounts c es))) (first_seen [] (map e_category es))"
    unfolding get_category_totals_fp_def ex by (rule get_category_totals_fp_characterised)
  have keys: "map fst (get_category_totals_fp add ?L) = first_seen [] (map e_category es)"
    unfolding c by (simp add: comp_def)
  have k1: "set (map fst (get_category_totals_fp add ?L)) = set (map e_category (expenses ?L))"
    unfolding keys ex by (simp add: set_first_seen)
  have k2: "distinct (map fst (get_category_totals_fp add ?L))"
    unfolding keys by (simp add: distinct_first_seen)
  have s: "sum_list (map snd (get_category_totals_fp (+) ?L)) = get_total_fp sum_list ?L"
    unfolding get_category_totals_fp_exact get_total_fp_exact
    by (simp add: get_category_totals_loop totals_loop_sum get_total_sum_list)
  have n: "get_expense_count ?L = length es" by (simp add: get_expense_count_def ex)
  have t: "get_total_fp fsum ?L = fsum (map e_amount es)" by (simp add: get_total_fp_def ex)
  from n t c k1 k2 s show ?thesis by (intro conjI)
qed

section \<open>The primary symbol and the rupee sign\<close>

text \<open>
  Claim C3 fails on the code. The claim is about the rupee sign, U+20B9; the literal that
  the source searches for, and returns as the currency, is a different string of three
  characters, so a numeral preceded by the rupee sign is never found by the first search.
  In the text made of \<open>$5 and\<close>, the rupee sign and \<open>7\<close>, the rupee sign precedes the numeral
  7, and \<open>parse\<close> returns the dollar sign and the amount 5. In the text made of \<open>9 bags\<close>, the
  rupee sign and \<open>500\<close>, it returns the amount 9, with the literal of the source as currency.
\<close>

theorem parse_rupee_sign_not_matched:
  "occurs_with_symbol ascii_runtime rupee_sign (u ''$5 and '' @ rupee_sign @ u ''7'')
     (u ''$5 and '') [] (u ''7'') []
   \<and> c_currency (parse ascii_runtime [] (u ''$5 and '' @ rupee_sign @ u ''7'')) = Some dollar
   \<and> c_amount (parse ascii_runtime [] (u ''$5 and '' @ rupee_sign @ u ''7'')) = Some 5
   \<and> occurs_with_symbol ascii_runtime rupee_sign (u ''9 bags '' @ rupee_sign @ u ''500'')
         (u ''9 bags '') [] (u ''500'') []
   \<and> c_currency (parse ascii_runtime [] (u ''9 bags '' @ rupee_sign @ u ''500'')) = Some rupee
   \<and> c_amount (parse ascii_runtime [] (u ''9 bags '' @ rupee_sign @ u ''500'')) = Some 9
   \<and> rupee \<noteq> rupee_sign \<and> dollar \<noteq> rupee_sign"
proof -
  have o1: "occurs_with_symbol ascii_runtime rupee_sign (u ''$5 and '' @ rupee_sign @ u ''7'')
     (u ''$5 and '') [] (u ''7'') []"
    by (simp add: occurs_with_symbol_def is_numeral_def all_digits_def is_digit_def ascii_eval)
  have o2: "occurs_with_symbol ascii_runtime rupee_sign (u ''9 bags '' @ rupee_sign @ u ''500'')
         (u ''9 bags '') [] (u ''500'') []"
    by (simp add: occurs_with_symbol_def is_numeral_def all_digits_def is_digit_def ascii_eval)
  have p1: "c_currency (parse ascii_runtime [] (u ''$5 and '' @ rupee_sign @ u ''7'')) = Some dollar"
    "c_amount (parse ascii_runtime [] (u ''$5 and '' @ rupee_sign @ u ''7'')) = Some 5"
    by (simp_all add: parse_eval ascii_eval rupee_sign_def)
  have p2: "c_currency (parse ascii_runtime [] (u ''9 bags '' @ rupee_sign @ u ''500'')) = Some rupee"
    "c_amount (parse ascii_runtime [] (u ''9 bags '' @ rupee_sign @ u ''500'')) = Some 9"
    by (simp_all add: parse_eval ascii_eval rupee_sign_def)
  have n: "rupee \<noteq> rupee_sign" "dollar \<noteq> rupee_sign"
    by (simp_all add: rupee_def dollar_def rupee_sign_def)
  from o1 o2 p1 p2 n show ?thesis by (intro conjI)
qed

end
